theory Spec2Isabelle
  imports Complex_Main "HOL-Library.AList" "HOL-Library.Monad_Syntax"
begin

section \<open>The board\<close>

text \<open>
  The program keeps one global \<^verbatim>\<open>board\<close>, a list of eight rows of eight one-character
  strings, read as \<^verbatim>\<open>board[r][c]\<close> and written as \<^verbatim>\<open>board[r][c] = x\<close> with Python
  integers. An access succeeds when both indices address an existing element; the result
  \<open>None\<close> stands for an access outside the grid. (Python raises IndexError above the
  range and wraps a negative index round to the other end; the model counts both as a failed
  access, so that a proof of success excludes both.)
\<close>

type_synonym board = "char list list"

definition cell :: "board \<Rightarrow> int \<Rightarrow> int \<Rightarrow> char option" where
  "cell b r c =
     (if 0 \<le> r \<and> r < int (length b) \<and> 0 \<le> c \<and> c < int (length (b ! nat r))
      then Some (b ! nat r ! nat c) else None)"

definition put :: "board \<Rightarrow> int \<Rightarrow> int \<Rightarrow> char \<Rightarrow> board option" where
  "put b r c x =
     (if 0 \<le> r \<and> r < int (length b) \<and> 0 \<le> c \<and> c < int (length (b ! nat r))
      then Some (b[nat r := (b ! nat r)[nat c := x]]) else None)"

text \<open>\<^verbatim>\<open>i in range(0, 8)\<close>\<close>

definition in_range8 :: "int \<Rightarrow> bool" where
  "in_range8 i \<longleftrightarrow> 0 \<le> i \<and> i < 8"

definition white_pieces :: "char list" where
  "white_pieces = [CHR ''P'', CHR ''R'', CHR ''B'', CHR ''Q'', CHR ''K'', CHR ''N'']"

definition black_pieces :: "char list" where
  "black_pieces = [CHR ''p'', CHR ''r'', CHR ''b'', CHR ''q'', CHR ''k'', CHR ''n'']"

definition single_move_pieces :: "char list" where
  "single_move_pieces = [CHR ''N'', CHR ''n'', CHR ''K'', CHR ''k'']"

text \<open>
  The table \<^verbatim>\<open>pieces_wgt\<close>. Its values are multiples of a quarter, and so are all numbers
  the program computes from them and from \<^verbatim>\<open>square_values\<close>; sums of at most a few thousand
  such values are exact in binary floating point, so rationals model them exactly.
\<close>

definition pieces_wgt :: "char \<Rightarrow> rat option" where
  "pieces_wgt = map_of
     [(CHR ''P'', 1), (CHR ''B'', 7/2), (CHR ''N'', 7/2), (CHR ''R'', 21/4),
      (CHR ''Q'', 10), (CHR ''K'', 200),
      (CHR ''p'', -1), (CHR ''b'', -7/2), (CHR ''n'', -7/2), (CHR ''r'', -21/4),
      (CHR ''q'', -10), (CHR ''k'', -200)]"

section \<open>Moves\<close>

text \<open>
  A \<^verbatim>\<open>Move\<close> holds two dictionaries keyed by \<^verbatim>\<open>(r, c)\<close>. They are association lists in
  insertion order here; assigning to a key that is present replaces its value in place.
\<close>

type_synonym coord = "int \<times> int"

record Move =
  changes :: "(coord \<times> char) list"
  undo_changes :: "(coord \<times> char) list"

definition Move_init :: Move where
  "Move_init = \<lparr>changes = [], undo_changes = []\<rparr>"

definition add_change :: "board \<Rightarrow> Move \<Rightarrow> int \<Rightarrow> int \<Rightarrow> char \<Rightarrow> Move option" where
  "add_change b m r c piece =
     do { old \<leftarrow> cell b r c;
          Some (m\<lparr>undo_changes := AList.update (r, c) old (undo_changes m),
                  changes := AList.update (r, c) piece (changes m)\<rparr>) }"

text \<open>
  Every move is built by the same three statements: \<^verbatim>\<open>move = Move()\<close>,
  \<^verbatim>\<open>move.add_change(r1, c1, piece)\<close>, \<^verbatim>\<open>move.add_change(r, c, '.')\<close>.
\<close>

definition new_move :: "board \<Rightarrow> int \<Rightarrow> int \<Rightarrow> char \<Rightarrow> int \<Rightarrow> int \<Rightarrow> Move option" where
  "new_move b r1 c1 piece r c =
     do { m1 \<leftarrow> add_change b Move_init r1 c1 piece;
          add_change b m1 r c (CHR ''.'') }"

text \<open>
  \<^verbatim>\<open>make\<close> writes \<^verbatim>\<open>changes[r, c]\<close> for every key of \<^verbatim>\<open>changes\<close>; \<^verbatim>\<open>unmake\<close> runs over
  the keys of \<^verbatim>\<open>changes\<close> too and writes \<^verbatim>\<open>undo_changes[r, c]\<close>, a KeyError (\<open>None\<close>)
  when that dictionary lacks the key.
\<close>

fun write_all :: "(coord \<times> char) list \<Rightarrow> board \<Rightarrow> board option" where
  "write_all [] b = Some b"
| "write_all (((r, c), x) # rest) b = do { b' \<leftarrow> put b r c x; write_all rest b' }"

definition make :: "Move \<Rightarrow> board \<Rightarrow> board option" where
  "make m b = write_all (changes m) b"

fun unmake_keys :: "coord list \<Rightarrow> (coord \<times> char) list \<Rightarrow> board \<Rightarrow> board option" where
  "unmake_keys [] undo b = Some b"
| "unmake_keys ((r, c) # rest) undo b =
     do { x \<leftarrow> map_of undo (r, c); b' \<leftarrow> put b r c x; unmake_keys rest undo b' }"

definition unmake :: "Move \<Rightarrow> board \<Rightarrow> board option" where
  "unmake m b = unmake_keys (map fst (changes m)) (undo_changes m) b"

section \<open>Move generation\<close>

definition wp_moves :: "board \<Rightarrow> Move list \<Rightarrow> int \<Rightarrow> int \<Rightarrow> Move list option" where
  "wp_moves b moves r c =
     (let r1 = r + 1 in
      if r1 < 8 then
        do { t1 \<leftarrow> (if c + 1 < 8 then cell b r1 (c + 1) else Some (CHR ''.''));
             moves1 \<leftarrow> (if c + 1 < 8 \<and> t1 \<in> set black_pieces then
                          do { m2 \<leftarrow> new_move b r1 (c + 1)
                                     (if r1 = 7 then CHR ''Q'' else CHR ''P'') r c;
                               Some (m2 # moves) }
                        else Some moves);
             t2 \<leftarrow> (if c - 1 > -1 then cell b r1 (c - 1) else Some (CHR ''.''));
             moves2 \<leftarrow> (if c - 1 > -1 \<and> t2 \<in> set black_pieces then
                          do { m2 \<leftarrow> new_move b r1 (c - 1)
                                     (if r1 = 7 then CHR ''Q'' else CHR ''P'') r c;
                               Some (m2 # moves1) }
                        else Some moves1);
             t3 \<leftarrow> cell b r1 c;
             moves3 \<leftarrow> (if t3 = CHR ''.'' then
                          do { m2 \<leftarrow> new_move b r1 c
                                     (if r1 = 7 then CHR ''Q'' else CHR ''P'') r c;
                               Some (moves2 @ [m2]) }
                        else Some moves2);
             t4 \<leftarrow> (if r = 1 then cell b 2 c else Some (CHR ''.''));
             t5 \<leftarrow> (if r = 1 \<and> t4 = CHR ''.'' then cell b 3 c else Some (CHR ''.''));
             if r = 1 \<and> t4 = CHR ''.'' \<and> t5 = CHR ''.'' then
               do { m2 \<leftarrow> new_move b (r + 2) c (CHR ''P'') r c;
                    Some (moves3 @ [m2]) }
             else Some moves3 }
      else Some moves)"

definition bp_moves :: "board \<Rightarrow> Move list \<Rightarrow> int \<Rightarrow> int \<Rightarrow> Move list option" where
  "bp_moves b moves r c =
     (let r1 = r - 1 in
      if r1 > -1 then
        do { t1 \<leftarrow> (if c + 1 < 8 then cell b r1 (c + 1) else Some (CHR ''.''));
             moves1 \<leftarrow> (if c + 1 < 8 \<and> t1 \<in> set white_pieces then
                          do { m2 \<leftarrow> new_move b r1 (c + 1)
                                     (if r1 = 0 then CHR ''q'' else CHR ''p'') r c;
                               Some (m2 # moves) }
                        else Some moves);
             t2 \<leftarrow> (if c - 1 > -1 then cell b r1 (c - 1) else Some (CHR ''.''));
             moves2 \<leftarrow> (if c - 1 > -1 \<and> t2 \<in> set white_pieces then
                          do { m2 \<leftarrow> new_move b r1 (c - 1)
                                     (if r1 = 0 then CHR ''q'' else CHR ''p'') r c;
                               Some (m2 # moves1) }
                        else Some moves1);
             t3 \<leftarrow> cell b r1 c;
             moves3 \<leftarrow> (if t3 = CHR ''.'' then
                          do { m2 \<leftarrow> new_move b r1 c
                                     (if r1 = 0 then CHR ''q'' else CHR ''p'') r c;
                               Some (moves2 @ [m2]) }
                        else Some moves2);
             t4 \<leftarrow> (if r = 6 then cell b 5 c else Some (CHR ''.''));
             t5 \<leftarrow> (if r = 6 \<and> t4 = CHR ''.'' then cell b 4 c else Some (CHR ''.''));
             if r = 6 \<and> t4 = CHR ''.'' \<and> t5 = CHR ''.'' then
               do { m2 \<leftarrow> new_move b (r - 2) c (CHR ''p'') r c;
                    Some (moves3 @ [m2]) }
             else Some moves3 }
      else Some moves)"

text \<open>
  \<^verbatim>\<open>add_move_in_dir\<close> calls itself with \<^verbatim>\<open>depth + 1\<close> after a quiet move of a sliding
  piece. With \<^verbatim>\<open>dr = dc = 0\<close> on an empty origin it would never return, so the function is
  partial: \<open>None\<close> is a failed access, a missing key of \<^verbatim>\<open>pieces_wgt\<close>, or no result.
\<close>

partial_function (option) add_move_in_dir ::
  "board \<Rightarrow> Move list \<Rightarrow> string \<Rightarrow> int \<Rightarrow> int \<Rightarrow> int \<Rightarrow> int \<Rightarrow> int \<Rightarrow> Move list option" where
  "add_move_in_dir b moves color r c dr dc depth =
     (let r1 = r + depth * dr; c1 = c + depth * dc in
      if \<not> in_range8 r1 \<or> \<not> in_range8 c1 then Some moves
      else
        do { t \<leftarrow> cell b r1 c1;
             if (t \<in> set white_pieces \<and> color = ''w'') \<or> (t \<in> set black_pieces \<and> color = ''b'')
             then Some moves
             else if (t \<in> set black_pieces \<and> color = ''w'') \<or> (t \<in> set white_pieces \<and> color = ''b'')
             then
               do { p \<leftarrow> cell b r c;
                    m2 \<leftarrow> new_move b r1 c1 p r c;
                    wt \<leftarrow> pieces_wgt t;
                    wp \<leftarrow> pieces_wgt p;
                    if \<bar>wt\<bar> > \<bar>wp\<bar> then Some (m2 # moves) else Some (moves @ [m2]) }
             else if t = CHR ''.''
             then
               do { p \<leftarrow> cell b r c;
                    m2 \<leftarrow> new_move b r1 c1 p r c;
                    if p \<in> set single_move_pieces then Some (moves @ [m2])
                    else add_move_in_dir b (moves @ [m2]) color r c dr dc (depth + 1) }
             else Some moves })"

definition r_moves :: "board \<Rightarrow> Move list \<Rightarrow> string \<Rightarrow> int \<Rightarrow> int \<Rightarrow> Move list option" where
  "r_moves b moves color r c =
     do { ms1 \<leftarrow> add_move_in_dir b moves color r c 1 0 1;
          ms2 \<leftarrow> add_move_in_dir b ms1 color r c (-1) 0 1;
          ms3 \<leftarrow> add_move_in_dir b ms2 color r c 0 1 1;
          add_move_in_dir b ms3 color r c 0 (-1) 1 }"

text \<open>A loop over a fixed tuple or range, threading the move list and stopping at a failure.\<close>

fun for_each :: "'a list \<Rightarrow> ('a \<Rightarrow> 's \<Rightarrow> 's option) \<Rightarrow> 's \<Rightarrow> 's option" where
  "for_each [] f s = Some s"
| "for_each (x # xs) f s = do { s' \<leftarrow> f x s; for_each xs f s' }"

definition b_moves :: "board \<Rightarrow> Move list \<Rightarrow> string \<Rightarrow> int \<Rightarrow> int \<Rightarrow> Move list option" where
  "b_moves b moves color r c =
     for_each [-1, 1] (\<lambda>dr. for_each [-1, 1] (\<lambda>dc ms. add_move_in_dir b ms color r c dr dc 1))
       moves"

definition q_moves :: "board \<Rightarrow> Move list \<Rightarrow> string \<Rightarrow> int \<Rightarrow> int \<Rightarrow> Move list option" where
  "q_moves b moves color r c = do { ms \<leftarrow> r_moves b moves color r c; b_moves b ms color r c }"

definition n_moves :: "board \<Rightarrow> Move list \<Rightarrow> string \<Rightarrow> int \<Rightarrow> int \<Rightarrow> Move list option" where
  "n_moves b moves color r c =
     for_each [-2, -1, 1, 2] (\<lambda>dr. for_each [-2, -1, 1, 2] (\<lambda>dc ms.
       if \<bar>dr\<bar> + \<bar>dc\<bar> = 3 then add_move_in_dir b ms color r c dr dc 1 else Some ms)) moves"

text \<open>
  In \<^verbatim>\<open>k_moves\<close> the test \<^verbatim>\<open>abs(dr) + abs(dc) is 1 or 2\<close> parses as
  \<^verbatim>\<open>(abs(dr) + abs(dc) is 1) or 2\<close>, and \<^verbatim>\<open>2\<close> is true: the call is made for all nine
  offsets, \<^verbatim>\<open>(0, 0)\<close> included.
\<close>

definition k_moves :: "board \<Rightarrow> Move list \<Rightarrow> string \<Rightarrow> int \<Rightarrow> int \<Rightarrow> Move list option" where
  "k_moves b moves color r c =
     for_each [-1, 0, 1] (\<lambda>dr. for_each [-1, 0, 1] (\<lambda>dc ms.
       if \<bar>dr\<bar> + \<bar>dc\<bar> = 1 \<or> True then add_move_in_dir b ms color r c dr dc 1 else Some ms)) moves"

definition white_cell :: "board \<Rightarrow> string \<Rightarrow> int \<Rightarrow> int \<Rightarrow> Move list \<Rightarrow> Move list option" where
  "white_cell b color r c moves =
     do { x \<leftarrow> cell b r c;
          if x = CHR ''P'' then wp_moves b moves r c
          else if x = CHR ''R'' then r_moves b moves color r c
          else if x = CHR ''B'' then b_moves b moves color r c
          else if x = CHR ''N'' then n_moves b moves color r c
          else if x = CHR ''Q'' then q_moves b moves color r c
          else if x = CHR ''K'' then k_moves b moves color r c
          else Some moves }"

definition black_cell :: "board \<Rightarrow> string \<Rightarrow> int \<Rightarrow> int \<Rightarrow> Move list \<Rightarrow> Move list option" where
  "black_cell b color r c moves =
     do { x \<leftarrow> cell b r c;
          if x = CHR ''p'' then bp_moves b moves r c
          else if x = CHR ''r'' then r_moves b moves color r c
          else if x = CHR ''b'' then b_moves b moves color r c
          else if x = CHR ''n'' then n_moves b moves color r c
          else if x = CHR ''q'' then q_moves b moves color r c
          else if x = CHR ''k'' then k_moves b moves color r c
          else Some moves }"

definition possible_moves :: "board \<Rightarrow> string \<Rightarrow> Move list option" where
  "possible_moves b color =
     (if color = ''w'' then
        for_each [0, 1, 2, 3, 4, 5, 6, 7] (\<lambda>r. for_each [0, 1, 2, 3, 4, 5, 6, 7] (white_cell b color r)) []
      else if color = ''b'' then
        for_each [0, 1, 2, 3, 4, 5, 6, 7] (\<lambda>r. for_each [0, 1, 2, 3, 4, 5, 6, 7] (black_cell b color r)) []
      else Some [])"

declare add_move_in_dir.simps [code]

section \<open>The search tree\<close>

text \<open>
  Scores are Python floats: finite values and the two infinities that \<^verbatim>\<open>alphabeta\<close> starts
  its running maximum and minimum from.
\<close>

datatype score = NegInf | Fin rat | PosInf

fun score_le :: "score \<Rightarrow> score \<Rightarrow> bool" where
  "score_le NegInf _ = True"
| "score_le _ PosInf = True"
| "score_le (Fin x) (Fin y) = (x \<le> y)"
| "score_le _ _ = False"

definition score_max :: "score \<Rightarrow> score \<Rightarrow> score" where
  "score_max x y = (if score_le x y then y else x)"

definition score_min :: "score \<Rightarrow> score \<Rightarrow> score" where
  "score_min x y = (if score_le x y then x else y)"

text \<open>
  A \<^verbatim>\<open>State\<close> object. Every node is referenced by its parent's \<^verbatim>\<open>successors\<close> list only, so
  the tree of objects is a tree of values; a function that mutates a node returns the new node.
  The global state of the program is the board and the tree: a function of this layer takes
  the board and returns the board it leaves, next to its result and the node.
\<close>

datatype state = State (move: "Move option") (val: score) (player_turn: bool)
  (successors: "state list")

text \<open>
  The parameter \<open>pc\<close> is the global \<^verbatim>\<open>player_color\<close>, from the command line;
  \<^verbatim>\<open>opponent_color\<close> is computed from it once.
\<close>

definition opponent_color :: "string \<Rightarrow> string" where
  "opponent_color pc = (if pc = ''w'' then ''b'' else ''w'')"

definition get_successors :: "string \<Rightarrow> board \<Rightarrow> state \<Rightarrow> (board \<times> state) option" where
  "get_successors pc b st =
     (if length (successors st) = 0 then
        do { moves \<leftarrow> possible_moves b (if player_turn st then pc else opponent_color pc);
             Some (b, State (move st) (val st) (player_turn st)
                        (successors st @
                         map (\<lambda>m. State (Some m) (Fin 0) (if player_turn st then False else True) [])
                           moves)) }
      else Some (b, st))"

section \<open>Evaluation\<close>

definition material_wgt :: rat where "material_wgt = 10"
definition pawn_structure_wgt :: rat where "pawn_structure_wgt = 1"
definition mobility_wgt :: rat where "mobility_wgt = 5"

text \<open>
  \<^verbatim>\<open>material\<close> runs over the rows and their cells; \<^verbatim>\<open>pieces_wgt.get\<close> of an unknown symbol is
  \<^verbatim>\<open>None\<close>, and adding it raises TypeError.
\<close>

fun white_points :: "char list \<Rightarrow> rat \<Rightarrow> rat option" where
  "white_points [] white_pts = Some white_pts"
| "white_points (piece # rest) white_pts =
     (if piece \<noteq> CHR ''.'' then
        do { w \<leftarrow> pieces_wgt piece; white_points rest (white_pts + w) }
      else white_points rest white_pts)"

definition material :: "string \<Rightarrow> board \<Rightarrow> rat option" where
  "material pc b =
     do { white_pts \<leftarrow> white_points (concat b) 0;
          Some (if pc = ''w'' then white_pts else -1 * white_pts) }"

definition square_values :: "coord \<Rightarrow> rat option" where
  "square_values = map_of
     [((2, 1), 1/4), ((2, 2), 1/2), ((2, 3), 1/2), ((2, 4), 1/2), ((2, 5), 1/2), ((2, 6), 1/4),
      ((3, 1), 1/4), ((3, 2), 1/2), ((3, 3), 1), ((3, 4), 1), ((3, 5), 1/2), ((3, 6), 1/4),
      ((4, 1), 1/4), ((4, 2), 1/2), ((4, 3), 1), ((4, 4), 1), ((4, 5), 1/2), ((4, 6), 1/4),
      ((5, 1), 1/4), ((5, 2), 1/2), ((5, 3), 1/2), ((5, 4), 1/2), ((5, 5), 1/2), ((5, 6), 1/4)]"

text \<open>The inner loop of \<^verbatim>\<open>mobility\<close>, over the keys of one child's \<^verbatim>\<open>changes\<close>.\<close>

fun mobility_keys :: "(coord \<times> char) list \<Rightarrow> rat \<Rightarrow> rat" where
  "mobility_keys [] m = m"
| "mobility_keys ((key, x) # rest) m =
     (case square_values key of
        Some w \<Rightarrow>
          if x \<notin> set [CHR ''.'', CHR ''K'', CHR ''k''] then mobility_keys rest (m + w)
          else mobility_keys rest m
      | None \<Rightarrow> mobility_keys rest m)"

text \<open>The outer loop; a child without a move has no \<^verbatim>\<open>changes\<close> (AttributeError).\<close>

fun mobility_children :: "state list \<Rightarrow> rat \<Rightarrow> rat option" where
  "mobility_children [] m = Some m"
| "mobility_children (next # rest) m =
     (case move next of
        None \<Rightarrow> None
      | Some mv \<Rightarrow> mobility_children rest (mobility_keys (changes mv) m))"

definition mobility :: "string \<Rightarrow> board \<Rightarrow> state \<Rightarrow> (rat \<times> board \<times> state) option" where
  "mobility pc b st =
     do { (b', st') \<leftarrow> get_successors pc b st;
          m \<leftarrow> mobility_children (successors st') 0;
          Some (if player_turn st' then m else -1 * m, b', st') }"

text \<open>
  \<^verbatim>\<open>pawn_structure\<close>: the test
  \<^verbatim>\<open>ur in range(0, 8) and lc in range(0, 8) and board[ur][lc] == 'P'\<close>, and the body of the
  two nested loops for one cell. The source has the loops twice, for \<^verbatim>\<open>'P'\<close> with the rank
  \<^verbatim>\<open>r - 1\<close> and for \<^verbatim>\<open>'p'\<close> with the rank \<^verbatim>\<open>r + 1\<close>; the pawn letter and the rank offset are
  parameters here.
\<close>

definition defended_from :: "board \<Rightarrow> char \<Rightarrow> int \<Rightarrow> int \<Rightarrow> bool option" where
  "defended_from b pawn ur lc =
     (if in_range8 ur \<and> in_range8 lc then do { x \<leftarrow> cell b ur lc; Some (x = pawn) }
      else Some False)"

definition pawn_cell :: "board \<Rightarrow> char \<Rightarrow> int \<Rightarrow> int \<Rightarrow> int \<Rightarrow> rat \<Rightarrow> rat option" where
  "pawn_cell b pawn back r c pts =
     do { x \<leftarrow> cell b r c;
          if x = pawn then
            do { left \<leftarrow> defended_from b pawn (r + back) (c - 1);
                 right \<leftarrow> defended_from b pawn (r + back) (c + 1);
                 Some ((if left then pts + 1 else pts) + (if right then 1 else 0)) }
          else Some pts }"

definition pawn_structure :: "string \<Rightarrow> board \<Rightarrow> state \<Rightarrow> rat option" where
  "pawn_structure pc b st =
     (if player_turn st then
        if pc = ''w'' then
          for_each [0, 1, 2, 3, 4, 5, 6, 7]
            (\<lambda>r. for_each [0, 1, 2, 3, 4, 5, 6, 7] (pawn_cell b (CHR ''P'') (-1) r)) 0
        else
          for_each [0, 1, 2, 3, 4, 5, 6, 7]
            (\<lambda>r. for_each [0, 1, 2, 3, 4, 5, 6, 7] (pawn_cell b (CHR ''p'') 1 r)) 0
      else Some 0)"

definition evaluate :: "string \<Rightarrow> board \<Rightarrow> state \<Rightarrow> (rat \<times> board \<times> state) option" where
  "evaluate pc b st =
     do { mat \<leftarrow> material pc b;
          ps \<leftarrow> pawn_structure pc b st;
          (mob, b', st') \<leftarrow> mobility pc b st;
          Some (material_wgt * mat + pawn_structure_wgt * ps + mobility_wgt * mob, b', st') }"

section \<open>Alpha-beta search\<close>

text \<open>
  \<^verbatim>\<open>is_game_over\<close> runs over the keys of \<^verbatim>\<open>undo_changes\<close> and looks each one up in \<^verbatim>\<open>changes\<close>
  when the old value is a king; the lookup of a missing key raises KeyError.
\<close>

fun king_taken :: "(coord \<times> char) list \<Rightarrow> (coord \<times> char) list \<Rightarrow> bool option" where
  "king_taken [] ch = Some False"
| "king_taken ((key, u) # rest) ch =
     (if u = CHR ''K'' then
        do { n \<leftarrow> map_of ch key;
             if n \<in> set black_pieces then Some True else king_taken rest ch }
      else if u = CHR ''k'' then
        do { n \<leftarrow> map_of ch key;
             if n \<in> set white_pieces then Some True else king_taken rest ch }
      else king_taken rest ch)"

definition is_game_over :: "state \<Rightarrow> bool option" where
  "is_game_over st =
     (case move st of
        None \<Rightarrow> Some False
      | Some m \<Rightarrow> king_taken (undo_changes m) (changes m))"

text \<open>The first branch of \<^verbatim>\<open>alphabeta\<close>: \<^verbatim>\<open>state.val = evaluate(state); return state.val\<close>.\<close>

definition leaf :: "string \<Rightarrow> board \<Rightarrow> state \<Rightarrow> (score \<times> board \<times> state) option" where
  "leaf pc b st =
     do { (v, b', st') \<leftarrow> evaluate pc b st;
          Some (Fin v, b', State (move st') (Fin v) (player_turn st') (successors st')) }"

text \<open>
  The two \<^verbatim>\<open>for\<close> loops of \<^verbatim>\<open>alphabeta\<close>, over the children still to visit. The parameter
  \<open>rec\<close> is the recursive call \<^verbatim>\<open>alphabeta(next_state, depth - 1, alpha, beta)\<close>; \<open>v\<close> is
  \<^verbatim>\<open>state.val\<close>. The result holds the final \<^verbatim>\<open>state.val\<close>, the board and the children as the
  loop leaves them; \<^verbatim>\<open>break\<close> leaves the remaining children untouched. The attribute
  \<^verbatim>\<open>move\<close> is assigned in the constructor only, so \<^verbatim>\<open>next_state.move\<close> is the same object
  before and after the recursive call.
\<close>

fun max_loop ::
  "(board \<Rightarrow> state \<Rightarrow> score \<Rightarrow> score \<Rightarrow> (score \<times> board \<times> state) option) \<Rightarrow>
   board \<Rightarrow> state list \<Rightarrow> score \<Rightarrow> score \<Rightarrow> score \<Rightarrow> (score \<times> board \<times> state list) option" where
  "max_loop rec b [] v alpha beta = Some (v, b, [])"
| "max_loop rec b (next_state # rest) v alpha beta =
     (case move next_state of
        None \<Rightarrow> None
      | Some m \<Rightarrow>
          do { b1 \<leftarrow> make m b;
               (x, b2, next') \<leftarrow> rec b1 next_state alpha beta;
               b3 \<leftarrow> unmake m b2;
               if score_le beta (score_max alpha (score_max v x))
               then Some (score_max v x, b3, next' # rest)
               else
                 do { (v', b4, rest') \<leftarrow>
                        max_loop rec b3 rest (score_max v x) (score_max alpha (score_max v x)) beta;
                      Some (v', b4, next' # rest') } })"

fun min_loop ::
  "(board \<Rightarrow> state \<Rightarrow> score \<Rightarrow> score \<Rightarrow> (score \<times> board \<times> state) option) \<Rightarrow>
   board \<Rightarrow> state list \<Rightarrow> score \<Rightarrow> score \<Rightarrow> score \<Rightarrow> (score \<times> board \<times> state list) option" where
  "min_loop rec b [] v alpha beta = Some (v, b, [])"
| "min_loop rec b (next_state # rest) v alpha beta =
     (case move next_state of
        None \<Rightarrow> None
      | Some m \<Rightarrow>
          do { b1 \<leftarrow> make m b;
               (x, b2, next') \<leftarrow> rec b1 next_state alpha beta;
               b3 \<leftarrow> unmake m b2;
               if score_le (score_min beta (score_min v x)) alpha
               then Some (score_min v x, b3, next' # rest)
               else
                 do { (v', b4, rest') \<leftarrow>
                        min_loop rec b3 rest (score_min v x) alpha (score_min beta (score_min v x));
                      Some (v', b4, next' # rest') } })"

text \<open>
  \<^verbatim>\<open>alphabeta\<close>. The depth is a natural number: the driver passes \<^verbatim>\<open>range(2, 102)\<close> and every
  recursive call passes \<^verbatim>\<open>depth - 1\<close> after the test \<^verbatim>\<open>depth == 0\<close>.
\<close>

fun alphabeta ::
  "string \<Rightarrow> board \<Rightarrow> state \<Rightarrow> nat \<Rightarrow> score \<Rightarrow> score \<Rightarrow> (score \<times> board \<times> state) option" where
  "alphabeta pc b st 0 alpha beta = leaf pc b st"
| "alphabeta pc b st (Suc d) alpha beta =
     do { over \<leftarrow> is_game_over st;
          if over then leaf pc b st
          else if player_turn st then
            do { (b', st1) \<leftarrow> get_successors pc b st;
                 (v, b'', succs) \<leftarrow>
                   max_loop (\<lambda>b1 next_state a1 b1'. alphabeta pc b1 next_state d a1 b1')
                     b' (successors st1) NegInf alpha beta;
                 Some (v, b'', State (move st1) v (player_turn st1) succs) }
          else
            do { (b', st1) \<leftarrow> get_successors pc b st;
                 (v, b'', succs) \<leftarrow>
                   min_loop (\<lambda>b1 next_state a1 b1'. alphabeta pc b1 next_state d a1 b1')
                     b' (successors st1) PosInf alpha beta;
                 Some (v, b'', State (move st1) v (player_turn st1) succs) } }"

text \<open>
  One round of the driver after its \<^verbatim>\<open>alphabeta\<close> call: the first child whose value equals
  the root's is made, the board is printed, and the move is unmade.
\<close>

fun report :: "board \<Rightarrow> score \<Rightarrow> state list \<Rightarrow> board option" where
  "report b v [] = Some b"
| "report b v (next_state # rest) =
     (if val next_state = v then
        (case move next_state of
           None \<Rightarrow> None
         | Some m \<Rightarrow> do { b1 \<leftarrow> make m b; unmake m b1 })
      else report b v rest)"

fun rounds :: "string \<Rightarrow> board \<Rightarrow> state \<Rightarrow> nat list \<Rightarrow> (board \<times> state) option" where
  "rounds pc b current [] = Some (b, current)"
| "rounds pc b current (d # ds) =
     do { (score, b1, current1) \<leftarrow> alphabeta pc b current d NegInf PosInf;
          (b2, current2) \<leftarrow> get_successors pc b1 current1;
          b3 \<leftarrow> report b2 (val current2) (successors current2);
          rounds pc b3 current2 ds }"

section \<open>Invariants used in the proofs\<close>

text \<open>
  A move is sound for a board when its two dictionaries have the same keys, each once, every
  recorded old value is the value the board holds at that key, and every new value is a symbol
  of the promotion rules or a character of the board.
\<close>

definition move_ok :: "board \<Rightarrow> Move \<Rightarrow> bool" where
  "move_ok b m \<longleftrightarrow>
     map fst (changes m) = map fst (undo_changes m) \<and> distinct (map fst (undo_changes m)) \<and>
     (\<forall>((r, c), u) \<in> set (undo_changes m). cell b r c = Some u) \<and>
     (\<forall>(k, x) \<in> set (changes m). x \<in> set ''.QPqp'' \<union> set (concat b))"

text \<open>The board has eight rows of eight cells.\<close>

definition wf_shape :: "board \<Rightarrow> bool" where
  "wf_shape b \<longleftrightarrow> length b = 8 \<and> (\<forall>row \<in> set b. length row = 8)"

definition is_piece :: "char \<Rightarrow> bool" where
  "is_piece x \<longleftrightarrow> x \<in> set white_pieces \<or> x \<in> set black_pieces"

text \<open>The two tests of \<^verbatim>\<open>add_move_in_dir\<close> on the target cell, named for the proofs.\<close>

definition own_piece :: "char \<Rightarrow> string \<Rightarrow> bool" where
  "own_piece t color \<longleftrightarrow>
     (t \<in> set white_pieces \<and> color = ''w'') \<or> (t \<in> set black_pieces \<and> color = ''b'')"

definition enemy_piece :: "char \<Rightarrow> string \<Rightarrow> bool" where
  "enemy_piece t color \<longleftrightarrow>
     (t \<in> set black_pieces \<and> color = ''w'') \<or> (t \<in> set white_pieces \<and> color = ''b'')"

text \<open>
  The move that takes the piece on \<open>(r, c)\<close> to \<open>(r1, c1)\<close> and leaves \<open>piece\<close> there, written
  out: what \<^verbatim>\<open>Move()\<close> and the two \<^verbatim>\<open>add_change\<close> calls build on an 8x8 board.
\<close>

definition step_move :: "board \<Rightarrow> int \<Rightarrow> int \<Rightarrow> int \<Rightarrow> int \<Rightarrow> char \<Rightarrow> Move" where
  "step_move b r c r1 c1 piece =
     \<lparr>changes = [((r1, c1), piece), ((r, c), CHR ''.'')],
      undo_changes = [((r1, c1), b ! nat r1 ! nat c1), ((r, c), b ! nat r ! nat c)]\<rparr>"

text \<open>
  The pawn moves written out, for stating where \<^verbatim>\<open>wp_moves\<close> and \<^verbatim>\<open>bp_moves\<close> put them: the
  diagonal captures (the one towards column \<open>c - 1\<close> first) and the quiet moves (the single
  step before the double step).
\<close>

definition wp_captures :: "board \<Rightarrow> int \<Rightarrow> int \<Rightarrow> Move list" where
  "wp_captures b r c =
     (if c - 1 > -1 \<and> b ! nat (r + 1) ! nat (c - 1) \<in> set black_pieces
      then [step_move b r c (r + 1) (c - 1) (if r + 1 = 7 then CHR ''Q'' else CHR ''P'')] else []) @
     (if c + 1 < 8 \<and> b ! nat (r + 1) ! nat (c + 1) \<in> set black_pieces
      then [step_move b r c (r + 1) (c + 1) (if r + 1 = 7 then CHR ''Q'' else CHR ''P'')] else [])"

definition wp_quiet :: "board \<Rightarrow> int \<Rightarrow> int \<Rightarrow> Move list" where
  "wp_quiet b r c =
     (if b ! nat (r + 1) ! nat c = CHR ''.''
      then [step_move b r c (r + 1) c (if r + 1 = 7 then CHR ''Q'' else CHR ''P'')] else []) @
     (if r = 1 \<and> b ! 2 ! nat c = CHR ''.'' \<and> b ! 3 ! nat c = CHR ''.''
      then [step_move b r c (r + 2) c (CHR ''P'')] else [])"

definition bp_captures :: "board \<Rightarrow> int \<Rightarrow> int \<Rightarrow> Move list" where
  "bp_captures b r c =
     (if c - 1 > -1 \<and> b ! nat (r - 1) ! nat (c - 1) \<in> set white_pieces
      then [step_move b r c (r - 1) (c - 1) (if r - 1 = 0 then CHR ''q'' else CHR ''p'')] else []) @
     (if c + 1 < 8 \<and> b ! nat (r - 1) ! nat (c + 1) \<in> set white_pieces
      then [step_move b r c (r - 1) (c + 1) (if r - 1 = 0 then CHR ''q'' else CHR ''p'')] else [])"

definition bp_quiet :: "board \<Rightarrow> int \<Rightarrow> int \<Rightarrow> Move list" where
  "bp_quiet b r c =
     (if b ! nat (r - 1) ! nat c = CHR ''.''
      then [step_move b r c (r - 1) c (if r - 1 = 0 then CHR ''q'' else CHR ''p'')] else []) @
     (if r = 6 \<and> b ! 5 ! nat c = CHR ''.'' \<and> b ! 4 ! nat c = CHR ''.''
      then [step_move b r c (r - 2) c (CHR ''p'')] else [])"

text \<open>Every cell holds a piece letter or the empty-cell symbol.\<close>

definition wf_symbols :: "board \<Rightarrow> bool" where
  "wf_symbols b \<longleftrightarrow> (\<forall>row \<in> set b. \<forall>x \<in> set row. x = CHR ''.'' \<or> is_piece x)"

text \<open>
  The eight neighbours of a square, in the order in which \<^verbatim>\<open>k_moves\<close> visits them, and the
  test that a neighbour is on the board and does not hold a piece of the mover's colour.
\<close>

definition king_offsets :: "(int \<times> int) list" where
  "king_offsets = [(-1, -1), (-1, 0), (-1, 1), (0, -1), (0, 1), (1, -1), (1, 0), (1, 1)]"

definition king_target_ok :: "board \<Rightarrow> string \<Rightarrow> int \<Rightarrow> int \<Rightarrow> int \<times> int \<Rightarrow> bool" where
  "king_target_ok b color r c d \<longleftrightarrow>
     in_range8 (r + fst d) \<and> in_range8 (c + snd d) \<and>
     \<not> own_piece (b ! nat (r + fst d) ! nat (c + snd d)) color"

text \<open>
  For stating what \<^verbatim>\<open>pawn_structure\<close> counts: the number of pawns of the same letter that
  stand diagonally one rank behind the pawn on \<open>(r, c)\<close> (0, 1 or 2; 0 when \<open>(r, c)\<close> holds no
  such pawn), the number of (pawn, defender) pairs on the board, and the number of pawns that
  have at least one defender.
\<close>

definition defender_count :: "board \<Rightarrow> char \<Rightarrow> int \<Rightarrow> int \<Rightarrow> int \<Rightarrow> nat" where
  "defender_count b pawn back r c =
     (if b ! nat r ! nat c = pawn then
        (if in_range8 (r + back) \<and> in_range8 (c - 1) \<and> b ! nat (r + back) ! nat (c - 1) = pawn
         then 1 else 0) +
        (if in_range8 (r + back) \<and> in_range8 (c + 1) \<and> b ! nat (r + back) ! nat (c + 1) = pawn
         then 1 else 0)
      else 0)"

definition defender_pairs :: "board \<Rightarrow> char \<Rightarrow> int \<Rightarrow> nat" where
  "defender_pairs b pawn back =
     (\<Sum>r\<leftarrow>[0, 1, 2, 3, 4, 5, 6, 7]. \<Sum>c\<leftarrow>[0, 1, 2, 3, 4, 5, 6, 7]. defender_count b pawn back r c)"

definition defended_pawns :: "board \<Rightarrow> char \<Rightarrow> int \<Rightarrow> nat" where
  "defended_pawns b pawn back =
     (\<Sum>r\<leftarrow>[0, 1, 2, 3, 4, 5, 6, 7]. \<Sum>c\<leftarrow>[0, 1, 2, 3, 4, 5, 6, 7].
        if defender_count b pawn back r c > 0 then 1 else 0)"

text \<open>
  The moves that the ordering rule puts in front, told from the move itself. A generated move
  records two old values, the destination's and then the origin's: it is a capture when the
  destination held a piece, and a priority capture when moreover the mover is a pawn or the
  absolute weight of the captured piece exceeds that of the mover.
\<close>

definition priority_capture :: "Move \<Rightarrow> bool" where
  "priority_capture m \<longleftrightarrow>
     (case map snd (undo_changes m) of
        [t, p] \<Rightarrow>
          is_piece t \<and>
          (p = CHR ''P'' \<or> p = CHR ''p'' \<or>
           (case pieces_wgt t of
              None \<Rightarrow> False
            | Some wt \<Rightarrow> (case pieces_wgt p of None \<Rightarrow> False | Some wp \<Rightarrow> \<bar>wt\<bar> > \<bar>wp\<bar>)))
      | _ \<Rightarrow> False)"

text \<open>
  The square a move starts from, numbered in the order in which \<^verbatim>\<open>possible_moves\<close> scans the
  board (row by row, \<open>8 * r + c\<close>): it is the second square a move records, the one its undo
  puts the moving piece back on.
\<close>

definition origin_index :: "Move \<Rightarrow> int" where
  "origin_index m = (case undo_changes m of [d, ((r, c), p)] \<Rightarrow> 8 * r + c | _ \<Rightarrow> 0)"

text \<open>
  A generation step for the piece on square number \<open>k\<close> grows the move list when it puts
  priority captures in front of it and other moves behind it, all of them starting from
  that square.
\<close>

definition grows :: "int \<Rightarrow> Move list \<Rightarrow> Move list \<Rightarrow> bool" where
  "grows k moves ms \<longleftrightarrow>
     (\<exists>front back. ms = front @ moves @ back \<and>
        (\<forall>m \<in> set front. priority_capture m \<and> origin_index m = k) \<and>
        (\<forall>m \<in> set back. \<not> priority_capture m \<and> origin_index m = k))"

text \<open>
  The move list while the scan has only visited squares numbered below \<open>k\<close>: the priority
  captures in front, a later square's before an earlier square's; the other moves behind
  them, an earlier square's before a later square's.
\<close>

definition ordered_below :: "int \<Rightarrow> Move list \<Rightarrow> bool" where
  "ordered_below k ms \<longleftrightarrow>
     (\<exists>front back. ms = front @ back \<and>
        (\<forall>m \<in> set front. priority_capture m) \<and> (\<forall>m \<in> set back. \<not> priority_capture m) \<and>
        sorted_wrt (\<lambda>m1 m2. origin_index m2 \<le> origin_index m1) front \<and>
        sorted_wrt (\<lambda>m1 m2. origin_index m1 \<le> origin_index m2) back \<and>
        (\<forall>m \<in> set ms. origin_index m < k))"

definition all_ok :: "board \<Rightarrow> Move list \<Rightarrow> bool" where
  "all_ok b ms \<longleftrightarrow> (\<forall>m \<in> set ms. move_ok b m)"

text \<open>
  The board is in the position of a node when every cached child was generated from this
  board: the child's move is sound for the board, and the board after making the move is in
  the position of the child. The node's own move, if any, has the same keys in both
  dictionaries.
\<close>

fun consistent :: "board \<Rightarrow> state \<Rightarrow> bool" where
  "consistent b (State mv v pt succs) =
     (\<forall>c \<in> set succs.
        case move c of
          None \<Rightarrow> False
        | Some m \<Rightarrow> move_ok b m \<and> (case make m b of None \<Rightarrow> False | Some b' \<Rightarrow> consistent b' c))"

definition child_ok :: "board \<Rightarrow> state \<Rightarrow> bool" where
  "child_ok b c \<longleftrightarrow>
     (case move c of
        None \<Rightarrow> False
      | Some m \<Rightarrow> move_ok b m \<and> (case make m b of None \<Rightarrow> False | Some b' \<Rightarrow> consistent b' c))"

definition own_keys :: "state \<Rightarrow> bool" where
  "own_keys st \<longleftrightarrow>
     (case move st of
        None \<Rightarrow> True
      | Some m \<Rightarrow> map fst (changes m) = map fst (undo_changes m))"

section \<open>Sample positions\<close>

definition pawn_board :: board where
  "pawn_board =
     [''........'',
      ''P.......'',
      ''.p......'',
      ''........'',
      ''........'',
      ''........'',
      ''........'',
      ''........'']"

definition ordering_board :: board where
  "ordering_board =
     [''N.......'',
      ''P.q.....'',
      ''.p......'',
      ''........'',
      ''........'',
      ''........'',
      ''........'',
      ''........'']"

definition king_board :: board where
  "king_board =
     [''.....r..'',
      ''....PK..'',
      ''.....n..'',
      ''........'',
      ''........'',
      ''........'',
      ''........'',
      ''........'']"

definition empty_board :: board where
  "empty_board =
     [''........'',
      ''........'',
      ''........'',
      ''........'',
      ''........'',
      ''........'',
      ''........'',
      ''........'']"

definition root :: state where
  "root = State None (Fin 0) True []"

definition chain_board :: board where
  "chain_board =
     [''........'',
      ''P.P.....'',
      ''.P......'',
      ''........'',
      ''........'',
      ''........'',
      ''........'',
      ''........'']"

definition king_capture :: Move where
  "king_capture = \<lparr>changes = [((0, 0), CHR ''r''), ((1, 0), CHR ''.'')],
                    undo_changes = [((0, 0), CHR ''K''), ((1, 0), CHR ''r'')]\<rparr>"

definition king_capture_node :: state where
  "king_capture_node = State (Some king_capture) (Fin 0) True []"

definition pawn_capture :: Move where
  "pawn_capture = \<lparr>changes = [((2, 1), CHR ''P''), ((1, 0), CHR ''.'')],
                    undo_changes = [((2, 1), CHR ''p''), ((1, 0), CHR ''P'')]\<rparr>"

definition pawn_step :: Move where
  "pawn_step = \<lparr>changes = [((2, 0), CHR ''P''), ((1, 0), CHR ''.'')],
                 undo_changes = [((2, 0), CHR ''.''), ((1, 0), CHR ''P'')]\<rparr>"

definition pawn_double :: Move where
  "pawn_double = \<lparr>changes = [((3, 0), CHR ''P''), ((1, 0), CHR ''.'')],
                   undo_changes = [((3, 0), CHR ''.''), ((1, 0), CHR ''P'')]\<rparr>"

definition pawn_root :: state where
  "pawn_root = State None (Fin 0) True
     [State (Some pawn_capture) (Fin 0) False [],
      State (Some pawn_step) (Fin 0) False [],
      State (Some pawn_double) (Fin 0) False []]"

section \<open>Board accesses\<close>



lemma put_lengths: "put b r c x = Some b' \<Longrightarrow> map length b' = map length b"
  by (auto simp: put_def list_eq_iff_nth_eq nth_list_update split: if_splits)

lemma cell_lengths_cong: "map length b' = map length b \<Longrightarrow> (cell b' r c = None) = (cell b r c = None)"
  by (auto simp: cell_def list_eq_iff_nth_eq)

lemma cell_put: "put b r c x = Some b' \<Longrightarrow>
  cell b' r' c' = (if r' = r \<and> c' = c then Some x else cell b r' c')"
  by (auto simp: put_def cell_def nth_list_update nat_eq_iff split: if_splits)

lemma put_Some: "cell b r c = Some y \<Longrightarrow> \<exists>b'. put b r c x = Some b'"
  by (auto simp: put_def cell_def split: if_splits)

lemma board_eqI:
  assumes "map length b' = map length b" and "\<And>r c. cell b' r c = cell b r c"
  shows "b' = b"
proof (rule nth_equalityI)
  show len: "length b' = length b" using assms(1) by (metis length_map)
  fix i assume i: "i < length b'"
  have li: "length (b' ! i) = length (b ! i)"
    using assms(1) i len by (metis nth_map)
  show "b' ! i = b ! i"
  proof (rule nth_equalityI)
    show "length (b' ! i) = length (b ! i)" by (rule li)
    fix j assume j: "j < length (b' ! i)"
    have "cell b' (int i) (int j) = cell b (int i) (int j)" by (rule assms(2))
    then show "b' ! i ! j = b ! i ! j"
      using i j len li by (simp add: cell_def)
  qed
qed

lemma write_all_cells:
  "\<forall>((r, c), x) \<in> set kvs. cell b r c \<noteq> None \<Longrightarrow>
   \<exists>b'. write_all kvs b = Some b' \<and> map length b' = map length b \<and>
     (\<forall>r c. cell b' r c = (case map_of (rev kvs) (r, c) of Some x \<Rightarrow> Some x | None \<Rightarrow> cell b r c))"
proof (induction kvs arbitrary: b)
  case Nil
  then show ?case by simp
next
  case (Cons kv kvs)
  obtain r c x where kv: "kv = ((r, c), x)" by (metis prod.exhaust)
  from Cons.prems kv obtain y where "cell b r c = Some y" by auto
  then obtain b1 where b1: "put b r c x = Some b1" using put_Some by blast
  have len1: "map length b1 = map length b" using b1 by (rule put_lengths)
  have "\<forall>((r, c), x) \<in> set kvs. cell b1 r c \<noteq> None"
    using Cons.prems cell_lengths_cong[OF len1] by auto
  from Cons.IH[OF this] obtain b' where b': "write_all kvs b1 = Some b'"
    "map length b' = map length b1"
    "\<forall>r c. cell b' r c = (case map_of (rev kvs) (r, c) of Some x \<Rightarrow> Some x | None \<Rightarrow> cell b1 r c)"
    by blast
  have "write_all (kv # kvs) b = Some b'" using kv b1 b'(1) by simp
  moreover have "map length b' = map length b" using b'(2) len1 by simp
  moreover have "\<forall>r' c'. cell b' r' c' =
      (case map_of (rev (kv # kvs)) (r', c') of Some x \<Rightarrow> Some x | None \<Rightarrow> cell b r' c')"
    using b'(3) cell_put[OF b1] kv
    by (auto simp: map_add_def split: option.splits)
  ultimately show ?case by blast
qed

section \<open>Making and unmaking a sound move\<close>

lemma cell_in_concat: "cell b r c = Some x \<Longrightarrow> x \<in> set (concat b)"
  by (auto simp: cell_def split: if_splits intro!: bexI[of _ "b ! nat r"])

lemma alist_update_subset: "set (AList.update k v al) \<subseteq> insert (k, v) (set al)"
  by (induction al) auto

lemma move_ok_init: "move_ok b Move_init"
  by (simp add: move_ok_def Move_init_def)

lemma add_change_ok:
  assumes "move_ok b m" "add_change b m r c p = Some m'" "p \<in> set ''.QPqp'' \<union> set (concat b)"
  shows "move_ok b m'"
proof -
  from assms(2) obtain old where old: "cell b r c = Some old"
    and m': "m' = m\<lparr>undo_changes := AList.update (r, c) old (undo_changes m),
                  changes := AList.update (r, c) p (changes m)\<rparr>"
    by (auto simp: add_change_def split: bind_splits)
  have k: "map fst (changes m) = map fst (undo_changes m)" using assms(1) by (simp add: move_ok_def)
  have 1: "map fst (changes m') = map fst (undo_changes m')"
    using k by (simp add: m' AList.update_keys)
  have 2: "distinct (map fst (undo_changes m'))"
    using assms(1) by (simp add: m' move_ok_def AList.distinct_update)
  have 3: "\<forall>((r, c), u) \<in> set (undo_changes m'). cell b r c = Some u"
    using assms(1) old alist_update_subset[of "(r, c)" old "undo_changes m"]
    by (auto simp: m' move_ok_def)
  have "x \<in> set ''.QPqp'' \<union> set (concat b)" if "(k, x) \<in> set (changes m')" for k x
  proof -
    from that have "(k, x) = ((r, c), p) \<or> (k, x) \<in> set (changes m)"
      using alist_update_subset[of "(r, c)" p "changes m"] by (auto simp: m')
    then show ?thesis
      using assms(1,3) unfolding move_ok_def by blast
  qed
  then have 4: "\<forall>(k, x) \<in> set (changes m'). x \<in> set ''.QPqp'' \<union> set (concat b)"
    by blast
  show ?thesis using 1 2 3 4 by (simp add: move_ok_def)
qed

lemma unmake_keys_write_all:
  "\<forall>kv \<in> set kvs. map_of undo (fst kv) = Some (snd kv) \<Longrightarrow>
   unmake_keys (map fst kvs) undo b = write_all kvs b"
proof (induction kvs arbitrary: b)
  case Nil
  then show ?case by simp
next
  case (Cons kv kvs)
  obtain r c x where kv: "kv = ((r, c), x)" by (metis prod.exhaust)
  have "map_of undo (r, c) = Some x" using Cons.prems kv by simp
  moreover have "\<And>b'. unmake_keys (map fst kvs) undo b' = write_all kvs b'"
    using Cons.IH Cons.prems by simp
  ultimately show ?case using kv by (cases "put b r c x") simp_all
qed

lemma make_unmake:
  assumes "move_ok b m"
  shows "\<exists>b'. make m b = Some b' \<and> unmake m b' = Some b"
proof -
  let ?ch = "changes m" and ?un = "undo_changes m"
  have keys: "map fst ?ch = map fst ?un" and dist: "distinct (map fst ?un)"
    and vals: "\<forall>((r, c), u) \<in> set ?un. cell b r c = Some u"
    using assms by (auto simp: move_ok_def)
  have "cell b r c \<noteq> None" if "((r, c), x) \<in> set ?ch" for r c x
  proof -
    from that have "(r, c) \<in> set (map fst ?un)" using keys by (metis fst_conv image_eqI set_map)
    then obtain u where "((r, c), u) \<in> set ?un" by auto
    with vals show ?thesis by auto
  qed
  then have "\<forall>((r, c), x) \<in> set ?ch. cell b r c \<noteq> None" by blast
  from write_all_cells[OF this] obtain b1 where b1: "write_all ?ch b = Some b1"
    "map length b1 = map length b"
    "\<forall>r c. cell b1 r c = (case map_of (rev ?ch) (r, c) of Some x \<Rightarrow> Some x | None \<Rightarrow> cell b r c)"
    by blast
  have un: "unmake m b1 = write_all ?un b1"
    unfolding unmake_def keys
    by (rule unmake_keys_write_all) (use dist in auto)
  have "cell b1 r c \<noteq> None" if "((r, c), x) \<in> set ?un" for r c x
  proof -
    from that vals have "cell b r c \<noteq> None" by auto
    then show ?thesis using cell_lengths_cong[OF b1(2)] by simp
  qed
  then have "\<forall>((r, c), x) \<in> set ?un. cell b1 r c \<noteq> None" by blast
  from write_all_cells[OF this] obtain b2 where b2: "write_all ?un b1 = Some b2"
    "map length b2 = map length b1"
    "\<forall>r c. cell b2 r c = (case map_of (rev ?un) (r, c) of Some x \<Rightarrow> Some x | None \<Rightarrow> cell b1 r c)"
    by blast
  have "b2 = b"
  proof (rule board_eqI)
    show "map length b2 = map length b" using b1(2) b2(2) by simp
    fix r c
    show "cell b2 r c = cell b r c"
    proof (cases "map_of (rev ?un) (r, c)")
      case None
      then have "(r, c) \<notin> fst ` set ?un" by (simp add: map_of_eq_None_iff)
      then have "(r, c) \<notin> fst ` set (rev ?ch)" using keys by (metis set_map set_rev)
      then have "map_of (rev ?ch) (r, c) = None" by (simp add: map_of_eq_None_iff)
      then show ?thesis using None b1(3) b2(3) by simp
    next
      case (Some u)
      then have "((r, c), u) \<in> set ?un" using map_of_SomeD by fastforce
      then have "cell b r c = Some u" using vals by auto
      then show ?thesis using Some b2(3) by simp
    qed
  qed
  then show ?thesis using b1(1) b2(1) un by (simp add: make_def)
qed

section \<open>Every generated move is sound\<close>



lemma new_move_ok:
  assumes "new_move b r1 c1 p r c = Some m" "p \<in> set ''.QPqp'' \<union> set (concat b)"
  shows "move_ok b m"
proof -
  from assms(1) obtain m1 where 1: "add_change b Move_init r1 c1 p = Some m1"
    and 2: "add_change b m1 r c (CHR ''.'') = Some m"
    by (auto simp: new_move_def bind_eq_Some_conv)
  have "move_ok b m1" using move_ok_init 1 assms(2) by (rule add_change_ok)
  then show ?thesis using 2 by (rule add_change_ok) simp
qed

lemma front_step_ok:
  assumes "(if P then do { m2 \<leftarrow> new_move b r1 c1 p r c; Some (m2 # mvs) } else Some mvs) = Some out"
    "\<forall>m \<in> set mvs. move_ok b m" "p \<in> set ''.QPqp'' \<union> set (concat b)"
  shows "\<forall>m \<in> set out. move_ok b m"
  using assms new_move_ok[of b r1 c1 p r c]
  by (cases P) (auto simp: bind_eq_Some_conv)

lemma back_step_ok:
  assumes "(if P then do { m2 \<leftarrow> new_move b r1 c1 p r c; Some (mvs @ [m2]) } else Some mvs) = Some out"
    "\<forall>m \<in> set mvs. move_ok b m" "p \<in> set ''.QPqp'' \<union> set (concat b)"
  shows "\<forall>m \<in> set out. move_ok b m"
  using assms new_move_ok[of b r1 c1 p r c]
  by (cases P) (auto simp: bind_eq_Some_conv)

lemma promo_white: "(if r1 = (7::int) then CHR ''Q'' else CHR ''P'') \<in> set ''.QPqp'' \<union> set (concat b)"
  by simp

lemma promo_black: "(if r1 = (0::int) then CHR ''q'' else CHR ''p'') \<in> set ''.QPqp'' \<union> set (concat b)"
  by simp

lemma wp_moves_ok:
  assumes "wp_moves b moves r c = Some ms" "\<forall>m \<in> set moves. move_ok b m"
  shows "\<forall>m \<in> set ms. move_ok b m"
proof (cases "r + 1 < 8")
  case False
  then show ?thesis using assms by (simp add: wp_moves_def)
next
  case True
  from assms(1) True obtain t1 moves1 t2 moves2 t3 moves3 t4 t5 where
    s1: "(if c + 1 < 8 \<and> t1 \<in> set black_pieces then
            do { m2 \<leftarrow> new_move b (r + 1) (c + 1) (if r + 1 = 7 then CHR ''Q'' else CHR ''P'') r c;
                 Some (m2 # moves) } else Some moves) = Some moves1"
    and s2: "(if c - 1 > -1 \<and> t2 \<in> set black_pieces then
            do { m2 \<leftarrow> new_move b (r + 1) (c - 1) (if r + 1 = 7 then CHR ''Q'' else CHR ''P'') r c;
                 Some (m2 # moves1) } else Some moves1) = Some moves2"
    and s3: "(if t3 = CHR ''.'' then
            do { m2 \<leftarrow> new_move b (r + 1) c (if r + 1 = 7 then CHR ''Q'' else CHR ''P'') r c;
                 Some (moves2 @ [m2]) } else Some moves2) = Some moves3"
    and s4: "(if r = 1 \<and> t4 = CHR ''.'' \<and> t5 = CHR ''.'' then
            do { m2 \<leftarrow> new_move b (r + 2) c (CHR ''P'') r c;
                 Some (moves3 @ [m2]) } else Some moves3) = Some ms"
    unfolding wp_moves_def Let_def by (simp add: bind_eq_Some_conv) blast
  have i1: "\<forall>m \<in> set moves1. move_ok b m" by (rule front_step_ok[OF s1 assms(2) promo_white])
  have i2: "\<forall>m \<in> set moves2. move_ok b m" by (rule front_step_ok[OF s2 i1 promo_white])
  have i3: "\<forall>m \<in> set moves3. move_ok b m" by (rule back_step_ok[OF s3 i2 promo_white])
  show ?thesis by (rule back_step_ok[OF s4 i3]) simp
qed

lemma bp_moves_ok:
  assumes "bp_moves b moves r c = Some ms" "\<forall>m \<in> set moves. move_ok b m"
  shows "\<forall>m \<in> set ms. move_ok b m"
proof (cases "r - 1 > -1")
  case False
  then show ?thesis using assms by (simp add: bp_moves_def)
next
  case True
  from assms(1) True obtain t1 moves1 t2 moves2 t3 moves3 t4 t5 where
    s1: "(if c + 1 < 8 \<and> t1 \<in> set white_pieces then
            do { m2 \<leftarrow> new_move b (r - 1) (c + 1) (if r - 1 = 0 then CHR ''q'' else CHR ''p'') r c;
                 Some (m2 # moves) } else Some moves) = Some moves1"
    and s2: "(if c - 1 > -1 \<and> t2 \<in> set white_pieces then
            do { m2 \<leftarrow> new_move b (r - 1) (c - 1) (if r - 1 = 0 then CHR ''q'' else CHR ''p'') r c;
                 Some (m2 # moves1) } else Some moves1) = Some moves2"
    and s3: "(if t3 = CHR ''.'' then
            do { m2 \<leftarrow> new_move b (r - 1) c (if r - 1 = 0 then CHR ''q'' else CHR ''p'') r c;
                 Some (moves2 @ [m2]) } else Some moves2) = Some moves3"
    and s4: "(if r = 6 \<and> t4 = CHR ''.'' \<and> t5 = CHR ''.'' then
            do { m2 \<leftarrow> new_move b (r - 2) c (CHR ''p'') r c;
                 Some (moves3 @ [m2]) } else Some moves3) = Some ms"
    unfolding bp_moves_def Let_def by (simp add: bind_eq_Some_conv) blast
  have i1: "\<forall>m \<in> set moves1. move_ok b m" by (rule front_step_ok[OF s1 assms(2) promo_black])
  have i2: "\<forall>m \<in> set moves2. move_ok b m" by (rule front_step_ok[OF s2 i1 promo_black])
  have i3: "\<forall>m \<in> set moves3. move_ok b m" by (rule back_step_ok[OF s3 i2 promo_black])
  show ?thesis by (rule back_step_ok[OF s4 i3]) simp
qed




lemma for_each_inv:
  assumes "for_each xs f s = Some s'" "I s"
    "\<And>x t t'. x \<in> set xs \<Longrightarrow> f x t = Some t' \<Longrightarrow> I t \<Longrightarrow> I t'"
  shows "I s'"
  using assms
proof (induction xs arbitrary: s)
  case Nil
  then show ?case by simp
next
  case (Cons x xs)
  from Cons.prems(1) obtain t where t: "f x s = Some t" and r: "for_each xs f t = Some s'"
    by (auto simp: bind_eq_Some_conv)
  have "I t" using Cons.prems(3)[OF _ t Cons.prems(2)] by simp
  moreover have "I t'" if "y \<in> set xs" "f y t = Some t'" "I t" for y t t'
    using Cons.prems(3)[of y t t'] that by simp
  ultimately show ?case using Cons.IH[OF r] by blast
qed

lemma add_move_in_dir_ok:
  assumes "add_move_in_dir b moves color r c dr dc depth = Some ms"
  shows "(\<forall>m \<in> set moves. move_ok b m) \<longrightarrow> (\<forall>m \<in> set ms. move_ok b m)"
proof (rule add_move_in_dir.raw_induct[where P = "\<lambda>b moves color r c dr dc depth ms.
          (\<forall>m \<in> set moves. move_ok b m) \<longrightarrow> (\<forall>m \<in> set ms. move_ok b m)", OF _ assms])
  fix f :: "board \<Rightarrow> Move list \<Rightarrow> string \<Rightarrow> int \<Rightarrow> int \<Rightarrow> int \<Rightarrow> int \<Rightarrow> int \<Rightarrow> Move list option"
    and b moves color r c dr dc depth ms
  assume IH: "\<And>b moves color r c dr dc depth ms. f b moves color r c dr dc depth = Some ms \<Longrightarrow>
          (\<forall>m \<in> set moves. move_ok b m) \<longrightarrow> (\<forall>m \<in> set ms. move_ok b m)"
  assume body: "(let r1 = r + depth * dr; c1 = c + depth * dc
      in if \<not> in_range8 r1 \<or> \<not> in_range8 c1 then Some moves
         else cell b r1 c1 \<bind>
              (\<lambda>t. if t \<in> set white_pieces \<and> color = ''w'' \<or>
                      t \<in> set black_pieces \<and> color = ''b''
                   then Some moves
                   else if t \<in> set black_pieces \<and> color = ''w'' \<or>
                           t \<in> set white_pieces \<and> color = ''b''
                        then cell b r c \<bind>
                             (\<lambda>p. new_move b r1 c1 p r c \<bind>
                                  (\<lambda>m2.
pieces_wgt t \<bind>
(\<lambda>wt. pieces_wgt p \<bind>
      (\<lambda>wp. if \<bar>wp\<bar> < \<bar>wt\<bar> then Some (m2 # moves)
            else Some (moves @ [m2])))))
                        else if t = CHR ''.''
                             then cell b r c \<bind>
                                  (\<lambda>p.
new_move b r1 c1 p r c \<bind>
(\<lambda>m2. if p \<in> set single_move_pieces then Some (moves @ [m2])
      else f b (moves @ [m2]) color r c dr dc (depth + 1)))
                             else Some moves)) =
     Some ms"
  show "(\<forall>m \<in> set moves. move_ok b m) \<longrightarrow> (\<forall>m \<in> set ms. move_ok b m)"
  proof
    assume inv: "\<forall>m \<in> set moves. move_ok b m"
    define r1 c1 where "r1 = r + depth * dr" and "c1 = c + depth * dc"
    note body' = body[unfolded Let_def, folded r1_def c1_def]
    show "\<forall>m \<in> set ms. move_ok b m"
    proof (cases "\<not> in_range8 r1 \<or> \<not> in_range8 c1")
      case True
      then show ?thesis using body' inv by simp
    next
      case False
      with body' obtain t where t: "cell b r1 c1 = Some t" and
        rest: "(if t \<in> set white_pieces \<and> color = ''w'' \<or> t \<in> set black_pieces \<and> color = ''b''
                   then Some moves
                   else if t \<in> set black_pieces \<and> color = ''w'' \<or>
                           t \<in> set white_pieces \<and> color = ''b''
                        then cell b r c \<bind>
                             (\<lambda>p. new_move b r1 c1 p r c \<bind>
                                  (\<lambda>m2. pieces_wgt t \<bind>
                                    (\<lambda>wt. pieces_wgt p \<bind>
                                      (\<lambda>wp. if \<bar>wp\<bar> < \<bar>wt\<bar> then Some (m2 # moves)
                                            else Some (moves @ [m2])))))
                        else if t = CHR ''.''
                             then cell b r c \<bind>
                                  (\<lambda>p. new_move b r1 c1 p r c \<bind>
                                    (\<lambda>m2. if p \<in> set single_move_pieces then Some (moves @ [m2])
                                          else f b (moves @ [m2]) color r c dr dc (depth + 1)))
                             else Some moves) = Some ms"
        by (auto simp: bind_eq_Some_conv)
      let ?own = "t \<in> set white_pieces \<and> color = ''w'' \<or> t \<in> set black_pieces \<and> color = ''b''"
      let ?cap = "t \<in> set black_pieces \<and> color = ''w'' \<or> t \<in> set white_pieces \<and> color = ''b''"
      show ?thesis
      proof (cases ?own)
        case True
        then show ?thesis using rest inv by simp
      next
        case nown: False
        show ?thesis
        proof (cases ?cap)
          case True
          with nown rest obtain p m2 where p: "cell b r c = Some p"
            and m2: "new_move b r1 c1 p r c = Some m2"
            and ms: "ms = m2 # moves \<or> ms = moves @ [m2]"
            by (auto simp: bind_eq_Some_conv split: if_splits)
          have "move_ok b m2" using m2 cell_in_concat[OF p] by (auto intro: new_move_ok)
          then show ?thesis using ms inv by auto
        next
          case ncap: False
          show ?thesis
          proof (cases "t = CHR ''.''")
            case True
            with nown ncap rest obtain p m2 where p: "cell b r c = Some p"
              and m2: "new_move b r1 c1 p r c = Some m2"
              and ms: "ms = moves @ [m2] \<or> f b (moves @ [m2]) color r c dr dc (depth + 1) = Some ms"
              by (auto simp: bind_eq_Some_conv split: if_splits)
            have "move_ok b m2" using m2 cell_in_concat[OF p] by (auto intro: new_move_ok)
            then have inv2: "\<forall>m \<in> set (moves @ [m2]). move_ok b m" using inv by auto
            from ms show ?thesis
            proof
              assume "ms = moves @ [m2]"
              then show ?thesis using inv2 by simp
            next
              assume "f b (moves @ [m2]) color r c dr dc (depth + 1) = Some ms"
              from IH[OF this] inv2 show ?thesis by blast
            qed
          next
            case False
            with nown ncap have "ms = moves" using rest by (simp only: if_False option.inject)
            then show ?thesis using inv by simp
          qed
        qed
      qed
    qed
  qed
qed

lemma amd_ok: "add_move_in_dir b moves color r c dr dc depth = Some ms \<Longrightarrow> all_ok b moves \<Longrightarrow> all_ok b ms"
  using add_move_in_dir_ok unfolding all_ok_def by blast

lemma r_moves_ok: "r_moves b moves color r c = Some ms \<Longrightarrow> all_ok b moves \<Longrightarrow> all_ok b ms"
  unfolding r_moves_def by (auto simp: bind_eq_Some_conv dest: amd_ok)

lemma b_moves_ok: "b_moves b moves color r c = Some ms \<Longrightarrow> all_ok b moves \<Longrightarrow> all_ok b ms"
  unfolding b_moves_def
  by (erule for_each_inv, assumption, erule for_each_inv, assumption) (rule amd_ok)

lemma q_moves_ok: "q_moves b moves color r c = Some ms \<Longrightarrow> all_ok b moves \<Longrightarrow> all_ok b ms"
  unfolding q_moves_def by (auto simp: bind_eq_Some_conv dest: r_moves_ok b_moves_ok)

lemma n_moves_ok: "n_moves b moves color r c = Some ms \<Longrightarrow> all_ok b moves \<Longrightarrow> all_ok b ms"
  unfolding n_moves_def
  by (erule for_each_inv, assumption, erule for_each_inv, assumption)
     (auto split: if_splits dest: amd_ok)

lemma k_moves_ok: "k_moves b moves color r c = Some ms \<Longrightarrow> all_ok b moves \<Longrightarrow> all_ok b ms"
  unfolding k_moves_def
  by (erule for_each_inv, assumption, erule for_each_inv, assumption)
     (auto split: if_splits dest: amd_ok)

lemma wp_ok: "wp_moves b moves r c = Some ms \<Longrightarrow> all_ok b moves \<Longrightarrow> all_ok b ms"
  using wp_moves_ok unfolding all_ok_def by blast

lemma bp_ok: "bp_moves b moves r c = Some ms \<Longrightarrow> all_ok b moves \<Longrightarrow> all_ok b ms"
  using bp_moves_ok unfolding all_ok_def by blast

lemma white_cell_ok: "white_cell b color r c moves = Some ms \<Longrightarrow> all_ok b moves \<Longrightarrow> all_ok b ms"
  unfolding white_cell_def
  by (auto simp: bind_eq_Some_conv split: if_splits
      dest: wp_ok r_moves_ok b_moves_ok n_moves_ok q_moves_ok k_moves_ok)

lemma black_cell_ok: "black_cell b color r c moves = Some ms \<Longrightarrow> all_ok b moves \<Longrightarrow> all_ok b ms"
  unfolding black_cell_def
  by (auto simp: bind_eq_Some_conv split: if_splits
      dest: bp_ok r_moves_ok b_moves_ok n_moves_ok q_moves_ok k_moves_ok)

lemma possible_moves_ok:
  assumes "possible_moves b color = Some ms"
  shows "all_ok b ms"
proof -
  have e: "all_ok b []" by (simp add: all_ok_def)
  consider (w) "color = ''w''" | (b) "color \<noteq> ''w''" "color = ''b''" | (o) "color \<noteq> ''w''" "color \<noteq> ''b''"
    by blast
  then show ?thesis
  proof cases
    case w
    with assms have "for_each [0, 1, 2, 3, 4, 5, 6, 7]
        (\<lambda>r. for_each [0, 1, 2, 3, 4, 5, 6, 7] (white_cell b color r)) [] = Some ms"
      by (simp add: possible_moves_def)
    then show ?thesis using e
      by (rule for_each_inv) (erule for_each_inv, assumption, rule white_cell_ok)
  next
    case b
    with assms have "for_each [0, 1, 2, 3, 4, 5, 6, 7]
        (\<lambda>r. for_each [0, 1, 2, 3, 4, 5, 6, 7] (black_cell b color r)) [] = Some ms"
      by (simp add: possible_moves_def)
    then show ?thesis using e
      by (rule for_each_inv) (erule for_each_inv, assumption, rule black_cell_ok)
  next
    case o
    with assms show ?thesis using e by (simp add: possible_moves_def)
  qed
qed



section \<open>Reads inside the grid succeed\<close>


lemma wf_row_length: "wf_shape b \<Longrightarrow> in_range8 r \<Longrightarrow> length (b ! nat r) = 8"
proof -
  assume wf: "wf_shape b" and r: "in_range8 r"
  have "nat r < length b" using wf r unfolding wf_shape_def in_range8_def by linarith
  then have "b ! nat r \<in> set b" by (rule nth_mem)
  then show ?thesis using wf by (simp add: wf_shape_def)
qed

lemma cell_wf: "wf_shape b \<Longrightarrow> in_range8 r \<Longrightarrow> in_range8 c \<Longrightarrow> cell b r c = Some (b ! nat r ! nat c)"
  using wf_row_length[of b r] by (simp add: wf_shape_def in_range8_def cell_def)

lemma cell_wf_Some: "wf_shape b \<Longrightarrow> in_range8 r \<Longrightarrow> in_range8 c \<Longrightarrow> \<exists>x. cell b r c = Some x"
  by (simp add: cell_wf)

lemma cell_wf_range: "wf_shape b \<Longrightarrow> cell b r c = Some x \<Longrightarrow> in_range8 r \<and> in_range8 c"
proof -
  assume wf: "wf_shape b" and x: "cell b r c = Some x"
  from x have r: "0 \<le> r" "r < int (length b)" and c: "0 \<le> c" "c < int (length (b ! nat r))"
    by (simp_all add: cell_def split: if_splits)
  have r8: "in_range8 r" using r wf by (simp add: wf_shape_def in_range8_def)
  then show ?thesis using c wf_row_length[OF wf r8] by (simp add: in_range8_def)
qed

lemma new_move_total:
  "cell b r1 c1 = Some x \<Longrightarrow> cell b r c = Some y \<Longrightarrow> \<exists>m. new_move b r1 c1 p r c = Some m"
  by (simp add: new_move_def add_change_def)

lemma pieces_wgt_dom: "x \<in> set ''PRBQKNprbqkn'' \<Longrightarrow> pieces_wgt x \<noteq> None"
  unfolding pieces_wgt_def
  by (simp only: map_of_eq_None_iff not_not) (simp, elim disjE, simp_all)

lemma pieces_wgt_total: "is_piece x \<Longrightarrow> \<exists>w. pieces_wgt x = Some w"
proof -
  assume "is_piece x"
  then have "x \<in> set ''PRBQKNprbqkn''"
    unfolding is_piece_def white_pieces_def black_pieces_def by simp
  then have "pieces_wgt x \<noteq> None" by (rule pieces_wgt_dom)
  then show ?thesis by blast
qed

lemma dot_not_piece: "\<not> is_piece (CHR ''.'')"
  by (simp add: is_piece_def white_pieces_def black_pieces_def)


lemma amd_out:
  "\<not> in_range8 (r + depth * dr) \<or> \<not> in_range8 (c + depth * dc) \<Longrightarrow>
   add_move_in_dir b moves color r c dr dc depth = Some moves"
  by (subst add_move_in_dir.simps) (simp add: Let_def)

lemma amd_own:
  "in_range8 (r + depth * dr) \<Longrightarrow> in_range8 (c + depth * dc) \<Longrightarrow>
   cell b (r + depth * dr) (c + depth * dc) = Some t \<Longrightarrow> own_piece t color \<Longrightarrow>
   add_move_in_dir b moves color r c dr dc depth = Some moves"
  by (subst add_move_in_dir.simps) (simp add: Let_def own_piece_def)

lemma amd_cap:
  "in_range8 (r + depth * dr) \<Longrightarrow> in_range8 (c + depth * dc) \<Longrightarrow>
   cell b (r + depth * dr) (c + depth * dc) = Some t \<Longrightarrow> \<not> own_piece t color \<Longrightarrow>
   enemy_piece t color \<Longrightarrow> cell b r c = Some p \<Longrightarrow>
   new_move b (r + depth * dr) (c + depth * dc) p r c = Some m2 \<Longrightarrow>
   pieces_wgt t = Some wt \<Longrightarrow> pieces_wgt p = Some wp \<Longrightarrow>
   add_move_in_dir b moves color r c dr dc depth =
     Some (if \<bar>wt\<bar> > \<bar>wp\<bar> then m2 # moves else moves @ [m2])"
  by (subst add_move_in_dir.simps) (simp add: Let_def own_piece_def enemy_piece_def)

lemma amd_empty:
  "in_range8 (r + depth * dr) \<Longrightarrow> in_range8 (c + depth * dc) \<Longrightarrow>
   cell b (r + depth * dr) (c + depth * dc) = Some (CHR ''.'') \<Longrightarrow>
   cell b r c = Some p \<Longrightarrow>
   new_move b (r + depth * dr) (c + depth * dc) p r c = Some m2 \<Longrightarrow>
   add_move_in_dir b moves color r c dr dc depth =
     (if p \<in> set single_move_pieces then Some (moves @ [m2])
      else add_move_in_dir b (moves @ [m2]) color r c dr dc (depth + 1))"
  by (subst add_move_in_dir.simps) (simp add: Let_def white_pieces_def black_pieces_def)

lemma amd_other:
  "in_range8 (r + depth * dr) \<Longrightarrow> in_range8 (c + depth * dc) \<Longrightarrow>
   cell b (r + depth * dr) (c + depth * dc) = Some t \<Longrightarrow> \<not> own_piece t color \<Longrightarrow>
   \<not> enemy_piece t color \<Longrightarrow> t \<noteq> CHR ''.'' \<Longrightarrow>
   add_move_in_dir b moves color r c dr dc depth = Some moves"
  by (subst add_move_in_dir.simps) (auto simp add: Let_def own_piece_def enemy_piece_def)


lemma slide_bound:
  assumes "in_range8 r" "in_range8 (r + depth * dr)" "dr \<noteq> 0" "1 \<le> depth"
  shows "depth < 8"
proof (cases "0 < dr")
  case True
  then have "depth * 1 \<le> depth * dr" using assms(4) by (intro mult_left_mono) auto
  then show ?thesis using assms(1,2) unfolding in_range8_def by linarith
next
  case False
  then have "dr \<le> -1" using assms(3) by simp
  then have "depth * dr \<le> depth * (-1)" using assms(4) by (intro mult_left_mono) auto
  then show ?thesis using assms(1,2) unfolding in_range8_def by linarith
qed

lemma add_move_in_dir_total:
  assumes wf: "wf_shape b" and r: "in_range8 r" and c: "in_range8 c"
    and p: "cell b r c = Some p" "is_piece p"
  shows "1 \<le> depth \<Longrightarrow> \<exists>ms. add_move_in_dir b moves color r c dr dc depth = Some ms"
proof (induction "nat (8 - depth)" arbitrary: depth moves rule: less_induct)
  case less
  let ?r1 = "r + depth * dr" and ?c1 = "c + depth * dc"
  show ?case
  proof (cases "\<not> in_range8 ?r1 \<or> \<not> in_range8 ?c1")
    case True
    then show ?thesis using amd_out by blast
  next
    case False
    then have r1: "in_range8 ?r1" and c1: "in_range8 ?c1" by auto
    obtain t where t: "cell b ?r1 ?c1 = Some t" using cell_wf_Some[OF wf r1 c1] by blast
    obtain m2 where m2: "new_move b ?r1 ?c1 p r c = Some m2"
      using new_move_total[OF t p(1)] by blast
    obtain wp where wp: "pieces_wgt p = Some wp" using pieces_wgt_total[OF p(2)] by blast
    show ?thesis
    proof (cases "own_piece t color")
      case True
      then show ?thesis using amd_own[OF r1 c1 t] by blast
    next
      case nown: False
      show ?thesis
      proof (cases "enemy_piece t color")
        case True
        then have "is_piece t" unfolding is_piece_def enemy_piece_def by blast
        then obtain wt where wt: "pieces_wgt t = Some wt" using pieces_wgt_total by blast
        show ?thesis using amd_cap[OF r1 c1 t nown True p(1) m2 wt wp] by blast
      next
        case ncap: False
        show ?thesis
        proof (cases "t = CHR ''.''")
          case dot: True
          note e = amd_empty[OF r1 c1 t[unfolded dot] p(1) m2, of moves color]
          show ?thesis
          proof (cases "p \<in> set single_move_pieces")
            case True
            then show ?thesis using e by simp
          next
            case slide: False
            have "dr \<noteq> 0 \<or> dc \<noteq> 0"
            proof (rule ccontr)
              assume "\<not> (dr \<noteq> 0 \<or> dc \<noteq> 0)"
              then have "t = p" using t p(1) by simp
              then show False using dot p(2) dot_not_piece by simp
            qed
            then have "depth < 8"
              using slide_bound[OF r r1] slide_bound[OF c c1] less.prems by blast
            then have "nat (8 - (depth + 1)) < nat (8 - depth)" by simp
            from less.hyps[OF this] less.prems
            obtain ms where "add_move_in_dir b (moves @ [m2]) color r c dr dc (depth + 1) = Some ms"
              by fastforce
            then show ?thesis using e slide by simp
          qed
        next
          case False
          then show ?thesis using amd_other[OF r1 c1 t nown ncap] by blast
        qed
      qed
    qed
  qed
qed


lemma for_each_total:
  assumes "\<And>x s. x \<in> set xs \<Longrightarrow> \<exists>s'. f x s = Some s'"
  shows "\<exists>s'. for_each xs f s = Some s'"
  using assms
proof (induction xs arbitrary: s)
  case Nil
  then show ?case by simp
next
  case (Cons x xs)
  obtain t where t: "f x s = Some t" using Cons.prems[of x s] by auto
  have "\<exists>s'. for_each xs f t = Some s'"
    by (rule Cons.IH) (use Cons.prems in auto)
  then show ?case using t by simp
qed

lemma front_step_total:
  assumes "P \<Longrightarrow> \<exists>m. new_move b r1 c1 p r c = Some m"
  shows "\<exists>out. (if P then do { m2 \<leftarrow> new_move b r1 c1 p r c; Some (m2 # mvs) } else Some mvs) = Some out"
proof (cases P)
  case True
  then obtain m where "new_move b r1 c1 p r c = Some m" using assms by blast
  then show ?thesis using True by simp
next
  case False
  then show ?thesis by simp
qed

lemma back_step_total:
  assumes "P \<Longrightarrow> \<exists>m. new_move b r1 c1 p r c = Some m"
  shows "\<exists>out. (if P then do { m2 \<leftarrow> new_move b r1 c1 p r c; Some (mvs @ [m2]) } else Some mvs) = Some out"
proof (cases P)
  case True
  then obtain m where "new_move b r1 c1 p r c = Some m" using assms by blast
  then show ?thesis using True by simp
next
  case False
  then show ?thesis by simp
qed

lemma wp_moves_total:
  assumes wf: "wf_shape b" and r: "in_range8 r" and c: "in_range8 c"
  shows "\<exists>ms. wp_moves b moves r c = Some ms"
proof (cases "r + 1 < 8")
  case False
  then show ?thesis by (simp add: wp_moves_def)
next
  case True
  then have r1: "in_range8 (r + 1)" using r by (simp add: in_range8_def)
  have nm: "\<And>r' c' pc. in_range8 r' \<Longrightarrow> in_range8 c' \<Longrightarrow> \<exists>m. new_move b r' c' pc r c = Some m"
    using new_move_total cell_wf_Some[OF wf] r c by meson
  have rd: "\<And>r' c'. in_range8 r' \<Longrightarrow> in_range8 c' \<Longrightarrow> \<exists>x. cell b r' c' = Some x"
    using cell_wf_Some[OF wf] by blast
  have "\<exists>t. (if c + 1 < 8 then cell b (r + 1) (c + 1) else Some (CHR ''.'')) = Some t"
  proof (cases "c + 1 < 8")
    case True
    then have "in_range8 (c + 1)" using c by (simp add: in_range8_def)
    then show ?thesis using True rd[OF r1] by simp
  qed simp
  then obtain t1 where t1: "(if c + 1 < 8 then cell b (r + 1) (c + 1) else Some (CHR ''.'')) = Some t1" ..
  have "\<exists>out. (if c + 1 < 8 \<and> t1 \<in> set black_pieces then
            do { m2 \<leftarrow> new_move b (r + 1) (c + 1) (if r + 1 = 7 then CHR ''Q'' else CHR ''P'') r c;
                 Some (m2 # moves) } else Some moves) = Some out"
  proof (rule front_step_total)
    assume "c + 1 < 8 \<and> t1 \<in> set black_pieces"
    then have "in_range8 (c + 1)" using c by (simp add: in_range8_def)
    then show "\<exists>m. new_move b (r + 1) (c + 1) (if r + 1 = 7 then CHR ''Q'' else CHR ''P'') r c = Some m"
      using nm[OF r1] by blast
  qed
  then obtain moves1 where m1: "(if c + 1 < 8 \<and> t1 \<in> set black_pieces then
            do { m2 \<leftarrow> new_move b (r + 1) (c + 1) (if r + 1 = 7 then CHR ''Q'' else CHR ''P'') r c;
                 Some (m2 # moves) } else Some moves) = Some moves1" ..
  have "\<exists>t. (if c - 1 > -1 then cell b (r + 1) (c - 1) else Some (CHR ''.'')) = Some t"
  proof (cases "c - 1 > -1")
    case True
    then have "in_range8 (c - 1)" using c by (simp add: in_range8_def)
    then show ?thesis using True rd[OF r1] by simp
  qed simp
  then obtain t2 where t2: "(if c - 1 > -1 then cell b (r + 1) (c - 1) else Some (CHR ''.'')) = Some t2" ..
  have "\<exists>out. (if c - 1 > -1 \<and> t2 \<in> set black_pieces then
            do { m2 \<leftarrow> new_move b (r + 1) (c - 1) (if r + 1 = 7 then CHR ''Q'' else CHR ''P'') r c;
                 Some (m2 # moves1) } else Some moves1) = Some out"
  proof (rule front_step_total)
    assume "c - 1 > -1 \<and> t2 \<in> set black_pieces"
    then have "in_range8 (c - 1)" using c by (simp add: in_range8_def)
    then show "\<exists>m. new_move b (r + 1) (c - 1) (if r + 1 = 7 then CHR ''Q'' else CHR ''P'') r c = Some m"
      using nm[OF r1] by blast
  qed
  then obtain moves2 where m2: "(if c - 1 > -1 \<and> t2 \<in> set black_pieces then
            do { m2 \<leftarrow> new_move b (r + 1) (c - 1) (if r + 1 = 7 then CHR ''Q'' else CHR ''P'') r c;
                 Some (m2 # moves1) } else Some moves1) = Some moves2" ..
  obtain t3 where t3: "cell b (r + 1) c = Some t3" using rd[OF r1 c] by blast
  have "\<exists>out. (if t3 = CHR ''.'' then
            do { m2 \<leftarrow> new_move b (r + 1) c (if r + 1 = 7 then CHR ''Q'' else CHR ''P'') r c;
                 Some (moves2 @ [m2]) } else Some moves2) = Some out"
    by (rule back_step_total) (use nm[OF r1 c] in blast)
  then obtain moves3 where m3: "(if t3 = CHR ''.'' then
            do { m2 \<leftarrow> new_move b (r + 1) c (if r + 1 = 7 then CHR ''Q'' else CHR ''P'') r c;
                 Some (moves2 @ [m2]) } else Some moves2) = Some moves3" ..
  have r2: "in_range8 2" and r3: "in_range8 3" by (simp_all add: in_range8_def)
  have "\<exists>t. (if r = 1 then cell b 2 c else Some (CHR ''.'')) = Some t"
    using rd[OF r2 c] by (cases "r = 1") simp_all
  then obtain t4 where t4: "(if r = 1 then cell b 2 c else Some (CHR ''.'')) = Some t4" ..
  have "\<exists>t. (if r = 1 \<and> t4 = CHR ''.'' then cell b 3 c else Some (CHR ''.'')) = Some t"
    using rd[OF r3 c] by (cases "r = 1 \<and> t4 = CHR ''.''") simp_all
  then obtain t5 where t5: "(if r = 1 \<and> t4 = CHR ''.'' then cell b 3 c else Some (CHR ''.'')) = Some t5" ..
  have "\<exists>out. (if r = 1 \<and> t4 = CHR ''.'' \<and> t5 = CHR ''.'' then
            do { m2 \<leftarrow> new_move b (r + 2) c (CHR ''P'') r c;
                 Some (moves3 @ [m2]) } else Some moves3) = Some out"
  proof (rule back_step_total)
    assume "r = 1 \<and> t4 = CHR ''.'' \<and> t5 = CHR ''.''"
    then have "in_range8 (r + 2)" by (simp add: in_range8_def)
    then show "\<exists>m. new_move b (r + 2) c (CHR ''P'') r c = Some m" using nm[OF _ c] by blast
  qed
  then obtain ms where m4: "(if r = 1 \<and> t4 = CHR ''.'' \<and> t5 = CHR ''.'' then
            do { m2 \<leftarrow> new_move b (r + 2) c (CHR ''P'') r c;
                 Some (moves3 @ [m2]) } else Some moves3) = Some ms" ..
  show ?thesis
    unfolding wp_moves_def Let_def using True t1 m1 t2 m2 t3 m3 t4 t5 m4 by simp
qed

lemma bp_moves_total:
  assumes wf: "wf_shape b" and r: "in_range8 r" and c: "in_range8 c"
  shows "\<exists>ms. bp_moves b moves r c = Some ms"
proof (cases "r - 1 > -1")
  case False
  then show ?thesis by (simp add: bp_moves_def)
next
  case True
  then have r1: "in_range8 (r - 1)" using r by (simp add: in_range8_def)
  have nm: "\<And>r' c' pc. in_range8 r' \<Longrightarrow> in_range8 c' \<Longrightarrow> \<exists>m. new_move b r' c' pc r c = Some m"
    using new_move_total cell_wf_Some[OF wf] r c by meson
  have rd: "\<And>r' c'. in_range8 r' \<Longrightarrow> in_range8 c' \<Longrightarrow> \<exists>x. cell b r' c' = Some x"
    using cell_wf_Some[OF wf] by blast
  have "\<exists>t. (if c + 1 < 8 then cell b (r - 1) (c + 1) else Some (CHR ''.'')) = Some t"
  proof (cases "c + 1 < 8")
    case True
    then have "in_range8 (c + 1)" using c by (simp add: in_range8_def)
    then show ?thesis using True rd[OF r1] by simp
  qed simp
  then obtain t1 where t1: "(if c + 1 < 8 then cell b (r - 1) (c + 1) else Some (CHR ''.'')) = Some t1" ..
  have "\<exists>out. (if c + 1 < 8 \<and> t1 \<in> set white_pieces then
            do { m2 \<leftarrow> new_move b (r - 1) (c + 1) (if r - 1 = 0 then CHR ''q'' else CHR ''p'') r c;
                 Some (m2 # moves) } else Some moves) = Some out"
  proof (rule front_step_total)
    assume "c + 1 < 8 \<and> t1 \<in> set white_pieces"
    then have "in_range8 (c + 1)" using c by (simp add: in_range8_def)
    then show "\<exists>m. new_move b (r - 1) (c + 1) (if r - 1 = 0 then CHR ''q'' else CHR ''p'') r c = Some m"
      using nm[OF r1] by blast
  qed
  then obtain moves1 where m1: "(if c + 1 < 8 \<and> t1 \<in> set white_pieces then
            do { m2 \<leftarrow> new_move b (r - 1) (c + 1) (if r - 1 = 0 then CHR ''q'' else CHR ''p'') r c;
                 Some (m2 # moves) } else Some moves) = Some moves1" ..
  have "\<exists>t. (if c - 1 > -1 then cell b (r - 1) (c - 1) else Some (CHR ''.'')) = Some t"
  proof (cases "c - 1 > -1")
    case True
    then have "in_range8 (c - 1)" using c by (simp add: in_range8_def)
    then show ?thesis using True rd[OF r1] by simp
  qed simp
  then obtain t2 where t2: "(if c - 1 > -1 then cell b (r - 1) (c - 1) else Some (CHR ''.'')) = Some t2" ..
  have "\<exists>out. (if c - 1 > -1 \<and> t2 \<in> set white_pieces then
            do { m2 \<leftarrow> new_move b (r - 1) (c - 1) (if r - 1 = 0 then CHR ''q'' else CHR ''p'') r c;
                 Some (m2 # moves1) } else Some moves1) = Some out"
  proof (rule front_step_total)
    assume "c - 1 > -1 \<and> t2 \<in> set white_pieces"
    then have "in_range8 (c - 1)" using c by (simp add: in_range8_def)
    then show "\<exists>m. new_move b (r - 1) (c - 1) (if r - 1 = 0 then CHR ''q'' else CHR ''p'') r c = Some m"
      using nm[OF r1] by blast
  qed
  then obtain moves2 where m2: "(if c - 1 > -1 \<and> t2 \<in> set white_pieces then
            do { m2 \<leftarrow> new_move b (r - 1) (c - 1) (if r - 1 = 0 then CHR ''q'' else CHR ''p'') r c;
                 Some (m2 # moves1) } else Some moves1) = Some moves2" ..
  obtain t3 where t3: "cell b (r - 1) c = Some t3" using rd[OF r1 c] by blast
  have "\<exists>out. (if t3 = CHR ''.'' then
            do { m2 \<leftarrow> new_move b (r - 1) c (if r - 1 = 0 then CHR ''q'' else CHR ''p'') r c;
                 Some (moves2 @ [m2]) } else Some moves2) = Some out"
    by (rule back_step_total) (use nm[OF r1 c] in blast)
  then obtain moves3 where m3: "(if t3 = CHR ''.'' then
            do { m2 \<leftarrow> new_move b (r - 1) c (if r - 1 = 0 then CHR ''q'' else CHR ''p'') r c;
                 Some (moves2 @ [m2]) } else Some moves2) = Some moves3" ..
  have r2: "in_range8 5" and r3: "in_range8 4" by (simp_all add: in_range8_def)
  have "\<exists>t. (if r = 6 then cell b 5 c else Some (CHR ''.'')) = Some t"
    using rd[OF r2 c] by (cases "r = 6") simp_all
  then obtain t4 where t4: "(if r = 6 then cell b 5 c else Some (CHR ''.'')) = Some t4" ..
  have "\<exists>t. (if r = 6 \<and> t4 = CHR ''.'' then cell b 4 c else Some (CHR ''.'')) = Some t"
    using rd[OF r3 c] by (cases "r = 6 \<and> t4 = CHR ''.''") simp_all
  then obtain t5 where t5: "(if r = 6 \<and> t4 = CHR ''.'' then cell b 4 c else Some (CHR ''.'')) = Some t5" ..
  have "\<exists>out. (if r = 6 \<and> t4 = CHR ''.'' \<and> t5 = CHR ''.'' then
            do { m2 \<leftarrow> new_move b (r - 2) c (CHR ''p'') r c;
                 Some (moves3 @ [m2]) } else Some moves3) = Some out"
  proof (rule back_step_total)
    assume "r = 6 \<and> t4 = CHR ''.'' \<and> t5 = CHR ''.''"
    then have "in_range8 (r - 2)" by (simp add: in_range8_def)
    then show "\<exists>m. new_move b (r - 2) c (CHR ''p'') r c = Some m" using nm[OF _ c] by blast
  qed
  then obtain ms where m4: "(if r = 6 \<and> t4 = CHR ''.'' \<and> t5 = CHR ''.'' then
            do { m2 \<leftarrow> new_move b (r - 2) c (CHR ''p'') r c;
                 Some (moves3 @ [m2]) } else Some moves3) = Some ms" ..
  show ?thesis
    unfolding bp_moves_def Let_def using True t1 m1 t2 m2 t3 m3 t4 t5 m4 by simp
qed


lemma r_moves_total:
  assumes "wf_shape b" "in_range8 r" "in_range8 c" "cell b r c = Some p" "is_piece p"
  shows "\<exists>ms. r_moves b moves color r c = Some ms"
proof -
  note t = add_move_in_dir_total[OF assms, of 1]
  obtain ms1 where 1: "add_move_in_dir b moves color r c 1 0 1 = Some ms1" using t by fastforce
  obtain ms2 where 2: "add_move_in_dir b ms1 color r c (-1) 0 1 = Some ms2" using t by fastforce
  obtain ms3 where 3: "add_move_in_dir b ms2 color r c 0 1 1 = Some ms3" using t by fastforce
  obtain ms4 where 4: "add_move_in_dir b ms3 color r c 0 (-1) 1 = Some ms4" using t by fastforce
  show ?thesis using 1 2 3 4 by (simp add: r_moves_def)
qed

lemma b_moves_total:
  assumes "wf_shape b" "in_range8 r" "in_range8 c" "cell b r c = Some p" "is_piece p"
  shows "\<exists>ms. b_moves b moves color r c = Some ms"
  unfolding b_moves_def
  by (intro for_each_total add_move_in_dir_total[OF assms]) simp

lemma q_moves_total:
  assumes "wf_shape b" "in_range8 r" "in_range8 c" "cell b r c = Some p" "is_piece p"
  shows "\<exists>ms. q_moves b moves color r c = Some ms"
proof -
  obtain ms where "r_moves b moves color r c = Some ms" using r_moves_total[OF assms] by blast
  then show ?thesis using b_moves_total[OF assms] by (simp add: q_moves_def)
qed

lemma n_moves_total:
  assumes "wf_shape b" "in_range8 r" "in_range8 c" "cell b r c = Some p" "is_piece p"
  shows "\<exists>ms. n_moves b moves color r c = Some ms"
  unfolding n_moves_def
proof (intro for_each_total)
  fix dr dc :: int and s
  show "\<exists>s'. (if \<bar>dr\<bar> + \<bar>dc\<bar> = 3 then add_move_in_dir b s color r c dr dc 1 else Some s) = Some s'"
    using add_move_in_dir_total[OF assms, of 1 s color dr dc] by simp
qed

lemma k_moves_total:
  assumes "wf_shape b" "in_range8 r" "in_range8 c" "cell b r c = Some p" "is_piece p"
  shows "\<exists>ms. k_moves b moves color r c = Some ms"
  unfolding k_moves_def
proof (intro for_each_total)
  fix dr dc :: int and s
  show "\<exists>s'. (if \<bar>dr\<bar> + \<bar>dc\<bar> = 1 \<or> True then add_move_in_dir b s color r c dr dc 1 else Some s) = Some s'"
    using add_move_in_dir_total[OF assms, of 1 s color dr dc] by simp
qed


lemma white_cell_total:
  assumes wf: "wf_shape b" and r: "in_range8 r" and c: "in_range8 c"
  shows "\<exists>ms. white_cell b color r c moves = Some ms"
proof -
  obtain x where x: "cell b r c = Some x" using cell_wf_Some[OF wf r c] by blast
  have pc: "is_piece x" if "x \<in> set ''RBNQK''"
    using that unfolding is_piece_def white_pieces_def by (simp, elim disjE) simp_all
  note tot = r_moves_total[OF wf r c x] b_moves_total[OF wf r c x] n_moves_total[OF wf r c x]
    q_moves_total[OF wf r c x] k_moves_total[OF wf r c x] wp_moves_total[OF wf r c]
  consider "x = CHR ''P''" | "x = CHR ''R''" | "x = CHR ''B''" | "x = CHR ''N''" | "x = CHR ''Q''"
    | "x = CHR ''K''" | "x \<notin> set ''PRBNQK''" by auto
  then show ?thesis
  proof cases
    case 7
    then show ?thesis using x by (simp add: white_cell_def)
  qed (use x pc tot in \<open>simp_all add: white_cell_def\<close>)
qed

lemma black_cell_total:
  assumes wf: "wf_shape b" and r: "in_range8 r" and c: "in_range8 c"
  shows "\<exists>ms. black_cell b color r c moves = Some ms"
proof -
  obtain x where x: "cell b r c = Some x" using cell_wf_Some[OF wf r c] by blast
  have pc: "is_piece x" if "x \<in> set ''rbnqk''"
    using that unfolding is_piece_def black_pieces_def by (simp, elim disjE) simp_all
  note tot = r_moves_total[OF wf r c x] b_moves_total[OF wf r c x] n_moves_total[OF wf r c x]
    q_moves_total[OF wf r c x] k_moves_total[OF wf r c x] bp_moves_total[OF wf r c]
  consider "x = CHR ''p''" | "x = CHR ''r''" | "x = CHR ''b''" | "x = CHR ''n''" | "x = CHR ''q''"
    | "x = CHR ''k''" | "x \<notin> set ''prbnqk''" by auto
  then show ?thesis
  proof cases
    case 7
    then show ?thesis using x by (simp add: black_cell_def)
  qed (use x pc tot in \<open>simp_all add: black_cell_def\<close>)
qed

lemma possible_moves_w:
  "possible_moves b ''w'' =
     for_each [0, 1, 2, 3, 4, 5, 6, 7] (\<lambda>r. for_each [0, 1, 2, 3, 4, 5, 6, 7] (white_cell b ''w'' r)) []"
  by (simp add: possible_moves_def del: for_each.simps)

lemma possible_moves_b:
  "possible_moves b ''b'' =
     for_each [0, 1, 2, 3, 4, 5, 6, 7] (\<lambda>r. for_each [0, 1, 2, 3, 4, 5, 6, 7] (black_cell b ''b'' r)) []"
  by (simp add: possible_moves_def del: for_each.simps)

lemma possible_moves_total:
  assumes wf: "wf_shape b"
  shows "\<exists>ms. possible_moves b color = Some ms"
proof -
  have rng: "in_range8 i" if "i \<in> set [0, 1, 2, 3, 4, 5, 6, 7]" for i
    using that by (auto simp: in_range8_def)
  have w: "\<exists>ms. for_each [0, 1, 2, 3, 4, 5, 6, 7]
        (\<lambda>r. for_each [0, 1, 2, 3, 4, 5, 6, 7] (white_cell b color r)) [] = Some ms"
    by (intro for_each_total white_cell_total[OF wf] rng)
  have bl: "\<exists>ms. for_each [0, 1, 2, 3, 4, 5, 6, 7]
        (\<lambda>r. for_each [0, 1, 2, 3, 4, 5, 6, 7] (black_cell b color r)) [] = Some ms"
    by (intro for_each_total black_cell_total[OF wf] rng)
  show ?thesis
  proof (cases "color = ''w''")
    case True
    show ?thesis unfolding True possible_moves_w by (rule w[unfolded True])
  next
    case nw: False
    show ?thesis
    proof (cases "color = ''b''")
      case True
      show ?thesis unfolding True possible_moves_b by (rule bl[unfolded True])
    next
      case False
      then show ?thesis using nw by (simp add: possible_moves_def)
    qed
  qed
qed


lemma move_ok_keys_range:
  assumes wf: "wf_shape b" and ok: "move_ok b m"
    and k: "((r, c), x) \<in> set (changes m) \<union> set (undo_changes m)"
  shows "in_range8 r \<and> in_range8 c"
proof -
  have "(r, c) \<in> set (map fst (undo_changes m))"
  proof -
    have "(r, c) \<in> set (map fst (changes m)) \<or> (r, c) \<in> set (map fst (undo_changes m))"
      using k by force
    moreover have "map fst (changes m) = map fst (undo_changes m)"
      using ok unfolding move_ok_def by blast
    ultimately show ?thesis by metis
  qed
  then obtain u where "((r, c), u) \<in> set (undo_changes m)" by auto
  then have "cell b r c = Some u" using ok unfolding move_ok_def by blast
  then show ?thesis using cell_wf_range[OF wf] by blast
qed


section \<open>The generated moves written out\<close>



lemma new_move_eq:
  assumes wf: "wf_shape b" and "in_range8 r1" "in_range8 c1" "in_range8 r" "in_range8 c"
    and ne: "(r1, c1) \<noteq> (r, c)"
  shows "new_move b r1 c1 piece r c = Some (step_move b r c r1 c1 piece)"
  using ne cell_wf[OF wf assms(2,3)] cell_wf[OF wf assms(4,5)]
  by (auto simp: new_move_def add_change_def Move_init_def step_move_def)

lemma wp_moves_eq:
  assumes wf: "wf_shape b" and r: "in_range8 r" and c: "in_range8 c" and True: "r + 1 < 8"
  shows "wp_moves b moves r c = Some (wp_captures b r c @ moves @ wp_quiet b r c)"
proof -
  have r1: "in_range8 (r + 1)" using r True by (simp add: in_range8_def)
  have nm: "\<And>r' c' pc. in_range8 r' \<Longrightarrow> in_range8 c' \<Longrightarrow> r' \<noteq> r \<Longrightarrow>
      new_move b r' c' pc r c = Some (step_move b r c r' c' pc)"
    using new_move_eq[OF wf _ _ r c] by simp
  have rd: "\<And>r' c'. in_range8 r' \<Longrightarrow> in_range8 c' \<Longrightarrow> cell b r' c' = Some (b ! nat r' ! nat c')"
    using cell_wf[OF wf] by blast
  define t1 where "t1 = (if c + 1 < 8 then b ! nat (r + 1) ! nat (c + 1) else CHR ''.'')"
  define capR where "capR = (if c + 1 < 8 \<and> b ! nat (r + 1) ! nat (c + 1) \<in> set black_pieces
      then [step_move b r c (r + 1) (c + 1) (if r + 1 = 7 then CHR ''Q'' else CHR ''P'')] else [])"
  define t2 where "t2 = (if c - 1 > -1 then b ! nat (r + 1) ! nat (c - 1) else CHR ''.'')"
  define capL where "capL = (if c - 1 > -1 \<and> b ! nat (r + 1) ! nat (c - 1) \<in> set black_pieces
      then [step_move b r c (r + 1) (c - 1) (if r + 1 = 7 then CHR ''Q'' else CHR ''P'')] else [])"
  define q1 where "q1 = (if b ! nat (r + 1) ! nat c = CHR ''.''
      then [step_move b r c (r + 1) c (if r + 1 = 7 then CHR ''Q'' else CHR ''P'')] else [])"
  define t4 where "t4 = (if r = 1 then b ! 2 ! nat c else CHR ''.'')"
  define t5 where "t5 = (if r = 1 \<and> t4 = CHR ''.'' then b ! 3 ! nat c else CHR ''.'')"
  define q2 where "q2 = (if r = 1 \<and> b ! 2 ! nat c = CHR ''.'' \<and> b ! 3 ! nat c = CHR ''.''
      then [step_move b r c (r + 2) c (CHR ''P'')] else [])"
  have e1: "(if c + 1 < 8 then cell b (r + 1) (c + 1) else Some (CHR ''.'')) = Some t1"
  proof (cases "c + 1 < 8")
    case True
    then have "in_range8 (c + 1)" using c by (simp add: in_range8_def)
    then show ?thesis using True rd[OF r1] by (simp add: t1_def)
  qed (simp add: t1_def)
  have s1: "(if c + 1 < 8 \<and> t1 \<in> set black_pieces then
            do { m2 \<leftarrow> new_move b (r + 1) (c + 1) (if r + 1 = 7 then CHR ''Q'' else CHR ''P'') r c;
                 Some (m2 # moves) } else Some moves) = Some (capR @ moves)"
  proof (cases "c + 1 < 8 \<and> t1 \<in> set black_pieces")
    case True
    then have "in_range8 (c + 1)" using c by (simp add: in_range8_def)
    then show ?thesis using True nm[OF r1] by (simp add: t1_def capR_def)
  next
    case False
    then show ?thesis by (auto simp: t1_def capR_def)
  qed
  have e2: "(if c - 1 > -1 then cell b (r + 1) (c - 1) else Some (CHR ''.'')) = Some t2"
  proof (cases "c - 1 > -1")
    case True
    then have "in_range8 (c - 1)" using c by (simp add: in_range8_def)
    then show ?thesis using True rd[OF r1] by (simp add: t2_def)
  qed (simp add: t2_def)
  have s2: "(if c - 1 > -1 \<and> t2 \<in> set black_pieces then
            do { m2 \<leftarrow> new_move b (r + 1) (c - 1) (if r + 1 = 7 then CHR ''Q'' else CHR ''P'') r c;
                 Some (m2 # capR @ moves) } else Some (capR @ moves)) = Some (capL @ capR @ moves)"
  proof (cases "c - 1 > -1 \<and> t2 \<in> set black_pieces")
    case True
    then have "in_range8 (c - 1)" using c by (simp add: in_range8_def)
    then show ?thesis using True nm[OF r1] by (simp add: t2_def capL_def)
  next
    case False
    then show ?thesis by (auto simp: t2_def capL_def)
  qed
  have e3: "cell b (r + 1) c = Some (b ! nat (r + 1) ! nat c)" using rd[OF r1 c] .
  have s3: "(if b ! nat (r + 1) ! nat c = CHR ''.'' then
            do { m2 \<leftarrow> new_move b (r + 1) c (if r + 1 = 7 then CHR ''Q'' else CHR ''P'') r c;
                 Some ((capL @ capR @ moves) @ [m2]) } else Some (capL @ capR @ moves))
          = Some (capL @ capR @ moves @ q1)"
    using nm[OF r1 c] by (simp add: q1_def)
  have r2: "in_range8 2" and r3: "in_range8 3" by (simp_all add: in_range8_def)
  have e4: "(if r = 1 then cell b 2 c else Some (CHR ''.'')) = Some t4"
    using rd[OF r2 c] by (simp add: t4_def)
  have e5: "(if r = 1 \<and> t4 = CHR ''.'' then cell b 3 c else Some (CHR ''.'')) = Some t5"
    using rd[OF r3 c] by (simp add: t5_def)
  have s4: "(if r = 1 \<and> t4 = CHR ''.'' \<and> t5 = CHR ''.'' then
            do { m2 \<leftarrow> new_move b (r + 2) c (CHR ''P'') r c;
                 Some ((capL @ capR @ moves @ q1) @ [m2]) } else Some (capL @ capR @ moves @ q1))
          = Some (capL @ capR @ moves @ q1 @ q2)"
  proof (cases "r = 1 \<and> t4 = CHR ''.'' \<and> t5 = CHR ''.''")
    case True
    then have "in_range8 (r + 2)" by (simp add: in_range8_def)
    then show ?thesis using True nm[OF _ c, of "r + 2"] by (simp add: t4_def t5_def q2_def)
  next
    case False
    then show ?thesis by (auto simp: t4_def t5_def q2_def)
  qed
  have "wp_moves b moves r c = Some (capL @ capR @ moves @ q1 @ q2)"
    unfolding wp_moves_def Let_def using True e1 s1 e2 s2 e3 s3 e4 e5 s4 by simp
  then show ?thesis
    by (simp add: wp_captures_def wp_quiet_def capL_def capR_def q1_def q2_def)
qed

lemma bp_moves_eq:
  assumes wf: "wf_shape b" and r: "in_range8 r" and c: "in_range8 c" and True: "r - 1 > -1"
  shows "bp_moves b moves r c = Some (bp_captures b r c @ moves @ bp_quiet b r c)"
proof -
  have r1: "in_range8 (r - 1)" using r True by (simp add: in_range8_def)
  have nm: "\<And>r' c' pc. in_range8 r' \<Longrightarrow> in_range8 c' \<Longrightarrow> r' \<noteq> r \<Longrightarrow>
      new_move b r' c' pc r c = Some (step_move b r c r' c' pc)"
    using new_move_eq[OF wf _ _ r c] by simp
  have rd: "\<And>r' c'. in_range8 r' \<Longrightarrow> in_range8 c' \<Longrightarrow> cell b r' c' = Some (b ! nat r' ! nat c')"
    using cell_wf[OF wf] by blast
  define t1 where "t1 = (if c + 1 < 8 then b ! nat (r - 1) ! nat (c + 1) else CHR ''.'')"
  define capR where "capR = (if c + 1 < 8 \<and> b ! nat (r - 1) ! nat (c + 1) \<in> set white_pieces
      then [step_move b r c (r - 1) (c + 1) (if r - 1 = 0 then CHR ''q'' else CHR ''p'')] else [])"
  define t2 where "t2 = (if c - 1 > -1 then b ! nat (r - 1) ! nat (c - 1) else CHR ''.'')"
  define capL where "capL = (if c - 1 > -1 \<and> b ! nat (r - 1) ! nat (c - 1) \<in> set white_pieces
      then [step_move b r c (r - 1) (c - 1) (if r - 1 = 0 then CHR ''q'' else CHR ''p'')] else [])"
  define q1 where "q1 = (if b ! nat (r - 1) ! nat c = CHR ''.''
      then [step_move b r c (r - 1) c (if r - 1 = 0 then CHR ''q'' else CHR ''p'')] else [])"
  define t4 where "t4 = (if r = 6 then b ! 5 ! nat c else CHR ''.'')"
  define t5 where "t5 = (if r = 6 \<and> t4 = CHR ''.'' then b ! 4 ! nat c else CHR ''.'')"
  define q2 where "q2 = (if r = 6 \<and> b ! 5 ! nat c = CHR ''.'' \<and> b ! 4 ! nat c = CHR ''.''
      then [step_move b r c (r - 2) c (CHR ''p'')] else [])"
  have e1: "(if c + 1 < 8 then cell b (r - 1) (c + 1) else Some (CHR ''.'')) = Some t1"
  proof (cases "c + 1 < 8")
    case True
    then have "in_range8 (c + 1)" using c by (simp add: in_range8_def)
    then show ?thesis using True rd[OF r1] by (simp add: t1_def)
  qed (simp add: t1_def)
  have s1: "(if c + 1 < 8 \<and> t1 \<in> set white_pieces then
            do { m2 \<leftarrow> new_move b (r - 1) (c + 1) (if r - 1 = 0 then CHR ''q'' else CHR ''p'') r c;
                 Some (m2 # moves) } else Some moves) = Some (capR @ moves)"
  proof (cases "c + 1 < 8 \<and> t1 \<in> set white_pieces")
    case True
    then have "in_range8 (c + 1)" using c by (simp add: in_range8_def)
    then show ?thesis using True nm[OF r1] by (simp add: t1_def capR_def)
  next
    case False
    then show ?thesis by (auto simp: t1_def capR_def)
  qed
  have e2: "(if c - 1 > -1 then cell b (r - 1) (c - 1) else Some (CHR ''.'')) = Some t2"
  proof (cases "c - 1 > -1")
    case True
    then have "in_range8 (c - 1)" using c by (simp add: in_range8_def)
    then show ?thesis using True rd[OF r1] by (simp add: t2_def)
  qed (simp add: t2_def)
  have s2: "(if c - 1 > -1 \<and> t2 \<in> set white_pieces then
            do { m2 \<leftarrow> new_move b (r - 1) (c - 1) (if r - 1 = 0 then CHR ''q'' else CHR ''p'') r c;
                 Some (m2 # capR @ moves) } else Some (capR @ moves)) = Some (capL @ capR @ moves)"
  proof (cases "c - 1 > -1 \<and> t2 \<in> set white_pieces")
    case True
    then have "in_range8 (c - 1)" using c by (simp add: in_range8_def)
    then show ?thesis using True nm[OF r1] by (simp add: t2_def capL_def)
  next
    case False
    then show ?thesis by (auto simp: t2_def capL_def)
  qed
  have e3: "cell b (r - 1) c = Some (b ! nat (r - 1) ! nat c)" using rd[OF r1 c] .
  have s3: "(if b ! nat (r - 1) ! nat c = CHR ''.'' then
            do { m2 \<leftarrow> new_move b (r - 1) c (if r - 1 = 0 then CHR ''q'' else CHR ''p'') r c;
                 Some ((capL @ capR @ moves) @ [m2]) } else Some (capL @ capR @ moves))
          = Some (capL @ capR @ moves @ q1)"
    using nm[OF r1 c] by (simp add: q1_def)
  have r2: "in_range8 5" and r3: "in_range8 4" by (simp_all add: in_range8_def)
  have e4: "(if r = 6 then cell b 5 c else Some (CHR ''.'')) = Some t4"
    using rd[OF r2 c] by (simp add: t4_def)
  have e5: "(if r = 6 \<and> t4 = CHR ''.'' then cell b 4 c else Some (CHR ''.'')) = Some t5"
    using rd[OF r3 c] by (simp add: t5_def)
  have s4: "(if r = 6 \<and> t4 = CHR ''.'' \<and> t5 = CHR ''.'' then
            do { m2 \<leftarrow> new_move b (r - 2) c (CHR ''p'') r c;
                 Some ((capL @ capR @ moves @ q1) @ [m2]) } else Some (capL @ capR @ moves @ q1))
          = Some (capL @ capR @ moves @ q1 @ q2)"
  proof (cases "r = 6 \<and> t4 = CHR ''.'' \<and> t5 = CHR ''.''")
    case True
    then have "in_range8 (r - 2)" by (simp add: in_range8_def)
    then show ?thesis using True nm[OF _ c, of "r - 2"] by (simp add: t4_def t5_def q2_def)
  next
    case False
    then show ?thesis by (auto simp: t4_def t5_def q2_def)
  qed
  have "bp_moves b moves r c = Some (capL @ capR @ moves @ q1 @ q2)"
    unfolding bp_moves_def Let_def using True e1 s1 e2 s2 e3 s3 e4 e5 s4 by simp
  then show ?thesis
    by (simp add: bp_captures_def bp_quiet_def capL_def capR_def q1_def q2_def)
qed



lemma white_not_black: "x \<in> set white_pieces \<Longrightarrow> x \<notin> set black_pieces"
  unfolding white_pieces_def black_pieces_def by (simp, elim disjE) simp_all

lemma enemy_not_own: "enemy_piece t color \<Longrightarrow> \<not> own_piece t color"
  unfolding enemy_piece_def own_piece_def using white_not_black by auto



lemma pieces_wgt_le: "pieces_wgt x = Some w \<Longrightarrow> \<bar>w\<bar> \<le> 200"
  unfolding pieces_wgt_def by (simp split: if_splits)

lemma cell_symbol:
  assumes "wf_shape b" "wf_symbols b" "in_range8 r" "in_range8 c"
  shows "b ! nat r ! nat c = CHR ''.'' \<or> is_piece (b ! nat r ! nat c)"
proof -
  have "nat r < length b" using assms(1,3) unfolding wf_shape_def in_range8_def by linarith
  then have row: "b ! nat r \<in> set b" by (rule nth_mem)
  have "nat c < length (b ! nat r)"
    using wf_row_length[OF assms(1,3)] assms(4) unfolding in_range8_def by linarith
  then have "b ! nat r ! nat c \<in> set (b ! nat r)" by (rule nth_mem)
  then show ?thesis using row assms(2) unfolding wf_symbols_def by blast
qed

lemma concat_map_if:
  "concat (map (\<lambda>d. if P d then [f d] else []) xs) = map f (filter P xs)"
  by (induction xs) auto



lemma king_call:
  assumes wf: "wf_shape b" and sy: "wf_symbols b" and r: "in_range8 r" and c: "in_range8 c"
    and own: "own_piece (b ! nat r ! nat c) color"
    and sm: "b ! nat r ! nat c \<in> set single_move_pieces"
    and w200: "pieces_wgt (b ! nat r ! nat c) = Some wp" "\<bar>wp\<bar> = 200"
  shows "add_move_in_dir b ms color r c dr dc 1 =
         Some (ms @ (if king_target_ok b color r c (dr, dc)
                     then [step_move b r c (r + dr) (c + dc) (b ! nat r ! nat c)] else []))"
proof (cases "in_range8 (r + dr) \<and> in_range8 (c + dc)")
  case False
  then have "add_move_in_dir b ms color r c dr dc 1 = Some ms"
    using amd_out[of r 1 dr c dc] by simp
  moreover have "\<not> king_target_ok b color r c (dr, dc)"
    using False unfolding king_target_ok_def by auto
  ultimately show ?thesis by simp
next
  case True
  then have r1: "in_range8 (r + 1 * dr)" and c1: "in_range8 (c + 1 * dc)" by simp_all
  let ?t = "b ! nat (r + 1 * dr) ! nat (c + 1 * dc)"
  let ?p = "b ! nat r ! nat c"
  note t = cell_wf[OF wf r1 c1]
  note p = cell_wf[OF wf r c]
  show ?thesis
  proof (cases "own_piece ?t color")
    case True
    then show ?thesis using amd_own[OF r1 c1 t True] by (simp add: king_target_ok_def)
  next
    case nown: False
    have ne: "(r + 1 * dr, c + 1 * dc) \<noteq> (r, c)"
    proof
      assume "(r + 1 * dr, c + 1 * dc) = (r, c)"
      then have "?t = ?p" by simp
      then show False using nown own by simp
    qed
    note m2 = new_move_eq[OF wf r1 c1 r c ne]
    have ok: "king_target_ok b color r c (dr, dc)"
      using True nown by (simp add: king_target_ok_def)
    show ?thesis
    proof (cases "enemy_piece ?t color")
      case True
      then have "is_piece ?t" unfolding is_piece_def enemy_piece_def by blast
      then obtain wt where wt: "pieces_wgt ?t = Some wt" using pieces_wgt_total by blast
      have "\<not> \<bar>wt\<bar> > \<bar>wp\<bar>" using pieces_wgt_le[OF wt] w200(2) by simp
      then show ?thesis using amd_cap[OF r1 c1 t nown True p m2 wt w200(1), of ms] ok by simp
    next
      case nen: False
      have "?t = CHR ''.'' \<or> is_piece ?t" by (rule cell_symbol[OF wf sy r1 c1])
      moreover have "\<not> is_piece ?t"
      proof
        assume "is_piece ?t"
        then have "own_piece ?t color \<or> enemy_piece ?t color \<or> (color \<noteq> ''w'' \<and> color \<noteq> ''b'')"
          unfolding is_piece_def own_piece_def enemy_piece_def by blast
        moreover have "color = ''w'' \<or> color = ''b''" using own unfolding own_piece_def by blast
        ultimately show False using nown nen by blast
      qed
      ultimately have dot: "?t = CHR ''.''" by blast
      show ?thesis using amd_empty[OF r1 c1 t[unfolded dot] p m2, of ms color] sm ok by simp
    qed
  qed
qed



lemma king_is_own:
  assumes "(x = CHR ''K'' \<and> color = ''w'') \<or> (x = CHR ''k'' \<and> color = ''b'')"
  shows "own_piece x color" "x \<in> set single_move_pieces"
    "\<exists>wp. pieces_wgt x = Some wp \<and> \<bar>wp\<bar> = 200"
  using assms
  by (auto simp: own_piece_def white_pieces_def black_pieces_def single_move_pieces_def pieces_wgt_def)


section \<open>The search layer\<close>



lemma get_successors_empty:
  "get_successors pc b st = Some (b', st1) \<Longrightarrow> b' = b \<and> move st1 = move st \<and> player_turn st1 = player_turn st"
  by (auto simp: get_successors_def bind_eq_Some_conv split: if_splits)

lemma king_taken_iff:
  assumes "fst ` set undo \<subseteq> fst ` set ch"
  shows "king_taken undo ch =
     Some (\<exists>(key, u) \<in> set undo. \<exists>n. map_of ch key = Some n \<and>
             (u = CHR ''K'' \<and> n \<in> set black_pieces \<or> u = CHR ''k'' \<and> n \<in> set white_pieces))"
  using assms
proof (induction undo)
  case Nil
  then show ?case by simp
next
  case (Cons a undo)
  obtain key u where a: "a = (key, u)" by (cases a)
  from Cons.prems a have "key \<in> fst ` set ch" by simp
  then obtain n where n: "map_of ch key = Some n"
    by (metis map_of_eq_None_iff not_Some_eq)
  have IH: "king_taken undo ch =
     Some (\<exists>(key, u) \<in> set undo. \<exists>n. map_of ch key = Some n \<and>
             (u = CHR ''K'' \<and> n \<in> set black_pieces \<or> u = CHR ''k'' \<and> n \<in> set white_pieces))"
    using Cons by simp
  show ?case unfolding a using n IH by simp
qed

lemma pawn_board_moves:
  "possible_moves pawn_board ''w'' = Some [pawn_capture, pawn_step, pawn_double]"
  by code_simp

lemma empty_board_root: "get_successors ''w'' empty_board root = Some (empty_board, root)"
  by code_simp



lemma for_each_sum:
  assumes "\<And>x s. x \<in> set xs \<Longrightarrow> f x s = Some (s + g x)"
  shows "for_each xs f s = Some (s + sum_list (map g xs))"
  using assms
proof (induction xs arbitrary: s)
  case Nil
  then show ?case by simp
next
  case (Cons x xs)
  have "f x s = Some (s + g x)" using Cons.prems by simp
  moreover have "for_each xs f (s + g x) = Some (s + g x + sum_list (map g xs))"
    by (rule Cons.IH) (use Cons.prems in simp)
  ultimately show ?case by (simp add: add.assoc)
qed

lemma defended_from_wf:
  assumes "wf_shape b"
  shows "defended_from b pawn ur lc =
         Some (in_range8 ur \<and> in_range8 lc \<and> b ! nat ur ! nat lc = pawn)"
  using cell_wf[OF assms, of ur lc] by (auto simp: defended_from_def)

lemma pawn_cell_wf:
  assumes wf: "wf_shape b" and r: "in_range8 r" and c: "in_range8 c"
  shows "pawn_cell b pawn back r c pts = Some (pts + of_nat (defender_count b pawn back r c))"
  using cell_wf[OF wf r c]
  by (simp add: pawn_cell_def defended_from_wf[OF wf] defender_count_def)

lemma of_nat_sum_list: "(of_nat (sum_list (map f xs)) :: rat) = sum_list (map (\<lambda>x. of_nat (f x)) xs)"
  by (induction xs) simp_all

lemma pawn_loops:
  assumes wf: "wf_shape b"
  shows "for_each [0, 1, 2, 3, 4, 5, 6, 7]
           (\<lambda>r. for_each [0, 1, 2, 3, 4, 5, 6, 7] (pawn_cell b pawn back r)) 0 =
         Some (of_nat (defender_pairs b pawn back))"
proof -
  have rng: "in_range8 i" if "i \<in> set [0, 1, 2, 3, 4, 5, 6, 7]" for i
    using that by (auto simp: in_range8_def)
  have inner: "for_each [0, 1, 2, 3, 4, 5, 6, 7] (pawn_cell b pawn back r) s =
      Some (s + (\<Sum>c\<leftarrow>[0, 1, 2, 3, 4, 5, 6, 7]. of_nat (defender_count b pawn back r c)))"
    if "r \<in> set [0, 1, 2, 3, 4, 5, 6, 7]" for r s
    by (rule for_each_sum) (rule pawn_cell_wf[OF wf rng[OF that] rng])
  have "for_each [0, 1, 2, 3, 4, 5, 6, 7]
           (\<lambda>r. for_each [0, 1, 2, 3, 4, 5, 6, 7] (pawn_cell b pawn back r)) 0 =
        Some (0 + (\<Sum>r\<leftarrow>[0, 1, 2, 3, 4, 5, 6, 7]. \<Sum>c\<leftarrow>[0, 1, 2, 3, 4, 5, 6, 7].
                    of_nat (defender_count b pawn back r c)))"
    by (rule for_each_sum) (rule inner)
  then show ?thesis
    unfolding defender_pairs_def of_nat_sum_list by simp
qed

lemma chain_board_wf: "wf_shape chain_board"
  by (simp add: wf_shape_def chain_board_def)

lemma chain_board_pairs: "defender_pairs chain_board (CHR ''P'') (-1) = 2"
  by code_simp



lemma white_points_total:
  "\<forall>x \<in> set xs. x = CHR ''.'' \<or> is_piece x \<Longrightarrow> \<exists>w. white_points xs acc = Some w"
proof (induction xs arbitrary: acc)
  case Nil
  then show ?case by simp
next
  case (Cons x xs)
  have rest: "\<And>a. \<exists>w. white_points xs a = Some w" using Cons by simp
  show ?case
  proof (cases "x = CHR ''.''")
    case True
    then show ?thesis using rest by simp
  next
    case False
    then have "is_piece x" using Cons.prems by simp
    then obtain w where "pieces_wgt x = Some w" using pieces_wgt_total by blast
    then show ?thesis using False rest by simp
  qed
qed

lemma material_total: "wf_symbols b \<Longrightarrow> \<exists>m. material pc b = Some m"
proof -
  assume "wf_symbols b"
  then have "\<forall>x \<in> set (concat b). x = CHR ''.'' \<or> is_piece x"
    unfolding wf_symbols_def by auto
  from white_points_total[OF this, of 0] show ?thesis by (auto simp: material_def)
qed

lemma pawn_structure_total: "wf_shape b \<Longrightarrow> \<exists>p. pawn_structure pc b st = Some p"
  unfolding pawn_structure_def using pawn_loops by simp

lemma get_successors_total:
  assumes "wf_shape b"
  shows "\<exists>st'. get_successors pc b st = Some (b, st') \<and> move st' = move st \<and>
           player_turn st' = player_turn st \<and> val st' = val st \<and>
           (successors st' = successors st \<or>
            (\<exists>ms. possible_moves b (if player_turn st then pc else opponent_color pc) = Some ms \<and>
                  successors st' = map (\<lambda>m. State (Some m) (Fin 0) (\<not> player_turn st) []) ms))"
proof (cases "successors st = []")
  case True
  obtain ms where "possible_moves b (if player_turn st then pc else opponent_color pc) = Some ms"
    using possible_moves_total[OF assms] by blast
  then show ?thesis using True by (simp add: get_successors_def)
next
  case False
  then show ?thesis by (cases st) (simp add: get_successors_def)
qed

lemma mobility_children_total:
  "\<forall>c \<in> set cs. move c \<noteq> None \<Longrightarrow> \<exists>m. mobility_children cs acc = Some m"
  by (induction cs arbitrary: acc) auto

lemma evaluate_total:
  assumes wf: "wf_shape b" and sy: "wf_symbols b"
    and ch: "\<forall>c \<in> set (successors st). move c \<noteq> None"
  shows "\<exists>v st'. evaluate pc b st = Some (v, b, st') \<and> move st' = move st \<and>
           player_turn st' = player_turn st \<and>
           (successors st' = successors st \<or>
            (\<exists>ms. possible_moves b (if player_turn st then pc else opponent_color pc) = Some ms \<and>
                  successors st' = map (\<lambda>m. State (Some m) (Fin 0) (\<not> player_turn st) []) ms))"
proof -
  obtain mat where mat: "material pc b = Some mat" using material_total[OF sy] by blast
  obtain ps where ps: "pawn_structure pc b st = Some ps" using pawn_structure_total[OF wf] by blast
  obtain st' where g: "get_successors pc b st = Some (b, st')"
    and same: "move st' = move st" "player_turn st' = player_turn st"
    and succ: "successors st' = successors st \<or>
            (\<exists>ms. possible_moves b (if player_turn st then pc else opponent_color pc) = Some ms \<and>
                  successors st' = map (\<lambda>m. State (Some m) (Fin 0) (\<not> player_turn st) []) ms)"
    using get_successors_total[OF wf, of pc st] by blast
  have "\<forall>c \<in> set (successors st'). move c \<noteq> None" using succ ch by auto
  then obtain m where m: "mobility_children (successors st') 0 = Some m"
    using mobility_children_total by blast
  have "evaluate pc b st =
      Some (material_wgt * mat + pawn_structure_wgt * ps +
            mobility_wgt * (if player_turn st' then m else -1 * m), b, st')"
    using mat ps g m by (simp add: evaluate_def mobility_def)
  then show ?thesis using same succ by blast
qed



lemma pawn_board_wf: "wf_shape pawn_board" "wf_symbols pawn_board"
  by (simp_all add: wf_shape_def wf_symbols_def pawn_board_def is_piece_def
      white_pieces_def black_pieces_def)

lemma pawn_board_evaluate: "evaluate ''w'' pawn_board root = Some (5 / 4, pawn_board, pawn_root)"
  by code_simp


section \<open>The board stays in the position of the node\<close>



lemma consistent_iff: "consistent b st = (\<forall>c \<in> set (successors st). child_ok b c)"
  by (cases st) (simp add: child_ok_def)

lemma wf_shape_iff: "wf_shape b \<longleftrightarrow> map length b = replicate 8 8"
proof
  assume "wf_shape b"
  then show "map length b = replicate 8 8"
    unfolding wf_shape_def by (intro replicate_eqI) auto
next
  assume a: "map length b = replicate 8 8"
  then have "length b = 8" by (metis length_map length_replicate)
  moreover have "\<forall>row \<in> set b. length row = 8"
  proof
    fix row assume "row \<in> set b"
    then have "length row \<in> set (map length b)" by simp
    then show "length row = 8" unfolding a by simp
  qed
  ultimately show "wf_shape b" by (simp add: wf_shape_def)
qed

lemma symbols_cells:
  "wf_symbols b \<longleftrightarrow> (\<forall>r c x. cell b r c = Some x \<longrightarrow> x = CHR ''.'' \<or> is_piece x)"
proof
  assume w: "wf_symbols b"
  show "\<forall>r c x. cell b r c = Some x \<longrightarrow> x = CHR ''.'' \<or> is_piece x"
  proof (intro allI impI)
    fix r c x assume "cell b r c = Some x"
    then have "x \<in> set (concat b)" by (rule cell_in_concat)
    then show "x = CHR ''.'' \<or> is_piece x" using w unfolding wf_symbols_def by auto
  qed
next
  assume a: "\<forall>r c x. cell b r c = Some x \<longrightarrow> x = CHR ''.'' \<or> is_piece x"
  show "wf_symbols b" unfolding wf_symbols_def
  proof (intro ballI)
    fix row x assume "row \<in> set b" "x \<in> set row"
    then obtain i j where i: "i < length b" "b ! i = row" and j: "j < length row" "row ! j = x"
      by (metis in_set_conv_nth)
    then have "cell b (int i) (int j) = Some x" by (simp add: cell_def)
    then show "x = CHR ''.'' \<or> is_piece x" using a by blast
  qed
qed

lemma move_ok_changes_valid:
  assumes "move_ok b m"
  shows "\<forall>((r, c), x) \<in> set (changes m). cell b r c \<noteq> None"
proof -
  have keys: "map fst (changes m) = map fst (undo_changes m)"
    and vals: "\<forall>((r, c), u) \<in> set (undo_changes m). cell b r c = Some u"
    using assms by (auto simp: move_ok_def)
  have "cell b r c \<noteq> None" if "((r, c), x) \<in> set (changes m)" for r c x
  proof -
    from that have "(r, c) \<in> set (map fst (undo_changes m))"
      using keys by (metis fst_conv image_eqI set_map)
    then obtain u where "((r, c), u) \<in> set (undo_changes m)" by auto
    with vals show ?thesis by auto
  qed
  then show ?thesis by blast
qed

lemma symbol_sets: "x \<in> set ''.QPqp'' \<Longrightarrow> x = CHR ''.'' \<or> is_piece x"
  unfolding is_piece_def white_pieces_def black_pieces_def by (simp, elim disjE) simp_all

lemma make_wf:
  assumes ok: "move_ok b m" and wf: "wf_shape b" and sy: "wf_symbols b"
    and mk: "make m b = Some b1"
  shows "wf_shape b1 \<and> wf_symbols b1"
proof -
  from write_all_cells[OF move_ok_changes_valid[OF ok]] mk
  have len: "map length b1 = map length b"
    and cells: "\<forall>r c. cell b1 r c =
        (case map_of (rev (changes m)) (r, c) of Some x \<Rightarrow> Some x | None \<Rightarrow> cell b r c)"
    by (auto simp: make_def)
  have shape: "wf_shape b1" using wf len by (simp add: wf_shape_iff)
  have old: "\<And>r c x. cell b r c = Some x \<Longrightarrow> x = CHR ''.'' \<or> is_piece x"
    using sy by (simp add: symbols_cells)
  have "x = CHR ''.'' \<or> is_piece x" if "cell b1 r c = Some x" for r c x
  proof (cases "map_of (rev (changes m)) (r, c)")
    case None
    then show ?thesis using that cells old by simp
  next
    case (Some y)
    then have "y = x" using that cells by simp
    then have "((r, c), x) \<in> set (changes m)" using Some by (metis map_of_SomeD set_rev)
    then have "x \<in> set ''.QPqp'' \<union> set (concat b)"
      using ok unfolding move_ok_def by blast
    then show ?thesis
    proof
      assume "x \<in> set ''.QPqp''"
      then show ?thesis by (rule symbol_sets)
    next
      assume "x \<in> set (concat b)"
      then show ?thesis using sy unfolding wf_symbols_def by auto
    qed
  qed
  then show ?thesis using shape by (simp add: symbols_cells)
qed

lemma child_okE:
  assumes "child_ok b c"
  obtains m b1 where "move c = Some m" "move_ok b m" "make m b = Some b1" "unmake m b1 = Some b"
    "consistent b1 c" "own_keys c"
proof -
  from assms obtain m where m: "move c = Some m" and ok: "move_ok b m"
    and cons: "case make m b of None \<Rightarrow> False | Some b' \<Rightarrow> consistent b' c"
    by (auto simp: child_ok_def split: option.splits)
  from make_unmake[OF ok] obtain b1 where b1: "make m b = Some b1" "unmake m b1 = Some b" by blast
  have "consistent b1 c" using cons b1 by simp
  moreover have "own_keys c" using m ok by (simp add: own_keys_def move_ok_def)
  ultimately show ?thesis using that m ok b1 by blast
qed

lemma child_okI:
  assumes "move c = Some m" "move_ok b m" "make m b = Some b1" "consistent b1 c"
  shows "child_ok b c"
  using assms by (simp add: child_ok_def)



lemma max_loop_restores:
  assumes wf: "wf_shape b" and sy: "wf_symbols b"
    and rec_ok: "\<And>b' c a1 b1. wf_shape b' \<Longrightarrow> wf_symbols b' \<Longrightarrow> own_keys c \<Longrightarrow> consistent b' c \<Longrightarrow>
        \<exists>v c'. rec b' c a1 b1 = Some (v, b', c') \<and> consistent b' c' \<and> move c' = move c"
  shows "\<forall>c \<in> set cs. child_ok b c \<Longrightarrow>
         \<exists>v' cs'. max_loop rec b cs v alpha beta = Some (v', b, cs') \<and> (\<forall>c \<in> set cs'. child_ok b c)"
proof (induction cs arbitrary: v alpha)
  case Nil
  then show ?case by simp
next
  case (Cons c cs)
  from Cons.prems have "child_ok b c" by simp
  then obtain m b1 where m: "move c = Some m" and ok: "move_ok b m" and mk: "make m b = Some b1"
    and um: "unmake m b1 = Some b" and cons: "consistent b1 c" and keys: "own_keys c"
    by (rule child_okE)
  have wf1: "wf_shape b1" "wf_symbols b1" using make_wf[OF ok wf sy mk] by simp_all
  from rec_ok[OF wf1 keys cons, of alpha beta]
  obtain x c' where r: "rec b1 c alpha beta = Some (x, b1, c')" and cons': "consistent b1 c'"
    and mv: "move c' = move c" by blast
  have c'ok: "child_ok b c'" using child_okI[OF _ ok mk cons'] mv m by simp
  have rest: "\<forall>c \<in> set cs. child_ok b c" using Cons.prems by simp
  show ?case
  proof (cases "score_le beta (score_max alpha (score_max v x))")
    case True
    then have "max_loop rec b (c # cs) v alpha beta = Some (score_max v x, b, c' # cs)"
      using m mk r um by simp
    then show ?thesis using c'ok rest by simp
  next
    case False
    from Cons.IH[OF rest, of "score_max v x" "score_max alpha (score_max v x)"]
    obtain v' cs' where l: "max_loop rec b cs (score_max v x) (score_max alpha (score_max v x)) beta
        = Some (v', b, cs')" and oks: "\<forall>c \<in> set cs'. child_ok b c" by blast
    have "max_loop rec b (c # cs) v alpha beta = Some (v', b, c' # cs')"
      using m mk r um False l by simp
    then show ?thesis using c'ok oks by simp
  qed
qed

lemma min_loop_restores:
  assumes wf: "wf_shape b" and sy: "wf_symbols b"
    and rec_ok: "\<And>b' c a1 b1. wf_shape b' \<Longrightarrow> wf_symbols b' \<Longrightarrow> own_keys c \<Longrightarrow> consistent b' c \<Longrightarrow>
        \<exists>v c'. rec b' c a1 b1 = Some (v, b', c') \<and> consistent b' c' \<and> move c' = move c"
  shows "\<forall>c \<in> set cs. child_ok b c \<Longrightarrow>
         \<exists>v' cs'. min_loop rec b cs v alpha beta = Some (v', b, cs') \<and> (\<forall>c \<in> set cs'. child_ok b c)"
proof (induction cs arbitrary: v beta)
  case Nil
  then show ?case by simp
next
  case (Cons c cs)
  from Cons.prems have "child_ok b c" by simp
  then obtain m b1 where m: "move c = Some m" and ok: "move_ok b m" and mk: "make m b = Some b1"
    and um: "unmake m b1 = Some b" and cons: "consistent b1 c" and keys: "own_keys c"
    by (rule child_okE)
  have wf1: "wf_shape b1" "wf_symbols b1" using make_wf[OF ok wf sy mk] by simp_all
  from rec_ok[OF wf1 keys cons, of alpha beta]
  obtain x c' where r: "rec b1 c alpha beta = Some (x, b1, c')" and cons': "consistent b1 c'"
    and mv: "move c' = move c" by blast
  have c'ok: "child_ok b c'" using child_okI[OF _ ok mk cons'] mv m by simp
  have rest: "\<forall>c \<in> set cs. child_ok b c" using Cons.prems by simp
  show ?case
  proof (cases "score_le (score_min beta (score_min v x)) alpha")
    case True
    then have "min_loop rec b (c # cs) v alpha beta = Some (score_min v x, b, c' # cs)"
      using m mk r um by simp
    then show ?thesis using c'ok rest by simp
  next
    case False
    from Cons.IH[OF rest, of "score_min v x" "score_min beta (score_min v x)"]
    obtain v' cs' where l: "min_loop rec b cs (score_min v x) alpha (score_min beta (score_min v x))
        = Some (v', b, cs')" and oks: "\<forall>c \<in> set cs'. child_ok b c" by blast
    have "min_loop rec b (c # cs) v alpha beta = Some (v', b, c' # cs')"
      using m mk r um False l by simp
    then show ?thesis using c'ok oks by simp
  qed
qed



lemma fresh_children_ok:
  assumes "possible_moves b col = Some ms"
  shows "\<forall>c \<in> set (map (\<lambda>m. State (Some m) (Fin 0) pt []) ms). child_ok b c"
proof
  fix c assume "c \<in> set (map (\<lambda>m. State (Some m) (Fin 0) pt []) ms)"
  then obtain m where m: "m \<in> set ms" and c: "c = State (Some m) (Fin 0) pt []" by auto
  have ok: "move_ok b m" using possible_moves_ok[OF assms] m by (simp add: all_ok_def)
  from make_unmake[OF ok] obtain b1 where "make m b = Some b1" by blast
  then show "child_ok b c" using ok c by (simp add: child_ok_def)
qed

lemma get_successors_consistent:
  assumes wf: "wf_shape b" and cons: "consistent b st"
  shows "\<exists>st1. get_successors pc b st = Some (b, st1) \<and> move st1 = move st \<and>
           player_turn st1 = player_turn st \<and> (\<forall>c \<in> set (successors st1). child_ok b c)"
proof -
  from get_successors_total[OF wf, of pc st]
  obtain st1 where g: "get_successors pc b st = Some (b, st1)"
    and same: "move st1 = move st" "player_turn st1 = player_turn st"
    and succ: "successors st1 = successors st \<or>
            (\<exists>ms. possible_moves b (if player_turn st then pc else opponent_color pc) = Some ms \<and>
                  successors st1 = map (\<lambda>m. State (Some m) (Fin 0) (\<not> player_turn st) []) ms)"
    by blast
  have "\<forall>c \<in> set (successors st1). child_ok b c"
    using succ
  proof
    assume "successors st1 = successors st"
    then show ?thesis using cons by (simp add: consistent_iff)
  next
    assume "\<exists>ms. possible_moves b (if player_turn st then pc else opponent_color pc) = Some ms \<and>
                  successors st1 = map (\<lambda>m. State (Some m) (Fin 0) (\<not> player_turn st) []) ms"
    then obtain ms where "possible_moves b (if player_turn st then pc else opponent_color pc) = Some ms"
      and s: "successors st1 = map (\<lambda>m. State (Some m) (Fin 0) (\<not> player_turn st) []) ms" by blast
    from fresh_children_ok[OF this(1)] show ?thesis unfolding s .
  qed
  then show ?thesis using g same by blast
qed

lemma child_ok_has_move: "child_ok b c \<Longrightarrow> move c \<noteq> None"
  by (auto simp: child_ok_def split: option.splits)

lemma leaf_restores:
  assumes wf: "wf_shape b" and sy: "wf_symbols b" and cons: "consistent b st"
  shows "\<exists>v st'. leaf pc b st = Some (v, b, st') \<and> consistent b st' \<and> move st' = move st"
proof -
  have "\<forall>c \<in> set (successors st). move c \<noteq> None"
    using cons child_ok_has_move by (auto simp: consistent_iff)
  from evaluate_total[OF wf sy this, of pc]
  obtain v st1 where e: "evaluate pc b st = Some (v, b, st1)" and mv: "move st1 = move st"
    and succ: "successors st1 = successors st \<or>
            (\<exists>ms. possible_moves b (if player_turn st then pc else opponent_color pc) = Some ms \<and>
                  successors st1 = map (\<lambda>m. State (Some m) (Fin 0) (\<not> player_turn st) []) ms)"
    by blast
  have "\<forall>c \<in> set (successors st1). child_ok b c"
    using succ
  proof
    assume "successors st1 = successors st"
    then show ?thesis using cons by (simp add: consistent_iff)
  next
    assume "\<exists>ms. possible_moves b (if player_turn st then pc else opponent_color pc) = Some ms \<and>
                  successors st1 = map (\<lambda>m. State (Some m) (Fin 0) (\<not> player_turn st) []) ms"
    then obtain ms where "possible_moves b (if player_turn st then pc else opponent_color pc) = Some ms"
      and s: "successors st1 = map (\<lambda>m. State (Some m) (Fin 0) (\<not> player_turn st) []) ms" by blast
    from fresh_children_ok[OF this(1)] show ?thesis unfolding s .
  qed
  then have "consistent b (State (move st1) (Fin v) (player_turn st1) (successors st1))"
    by (simp add: consistent_iff)
  then show ?thesis using e mv by (simp add: leaf_def)
qed

lemma is_game_over_total: "own_keys st \<Longrightarrow> \<exists>g. is_game_over st = Some g"
proof (cases "move st")
  case None
  then have "is_game_over st = Some False" by (simp add: is_game_over_def)
  then show ?thesis by blast
next
  case (Some m)
  assume "own_keys st"
  then have "fst ` set (undo_changes m) \<subseteq> fst ` set (changes m)"
    using Some by (simp add: own_keys_def) (metis set_map subset_refl)
  from king_taken_iff[OF this] have "\<exists>g. king_taken (undo_changes m) (changes m) = Some g"
    by blast
  then show ?thesis using Some by (simp add: is_game_over_def)
qed



lemma alphabeta_restores:
  "wf_shape b \<Longrightarrow> wf_symbols b \<Longrightarrow> own_keys st \<Longrightarrow> consistent b st \<Longrightarrow>
   \<exists>v st'. alphabeta pc b st d alpha beta = Some (v, b, st') \<and> consistent b st' \<and>
            move st' = move st"
proof (induction d arbitrary: b st alpha beta)
  case 0
  then show ?case using leaf_restores[of b st pc] by simp
next
  case (Suc d)
  note wf = Suc.prems(1) and sy = Suc.prems(2) and keys = Suc.prems(3) and cons = Suc.prems(4)
  obtain g where g: "is_game_over st = Some g" using is_game_over_total[OF keys] by blast
  show ?case
  proof (cases g)
    case True
    then show ?thesis using g leaf_restores[OF wf sy cons, of pc] by simp
  next
    case False
    from get_successors_consistent[OF wf cons, of pc]
    obtain st1 where gs: "get_successors pc b st = Some (b, st1)" and mv: "move st1 = move st"
      and pt: "player_turn st1 = player_turn st"
      and oks: "\<forall>c \<in> set (successors st1). child_ok b c" by blast
    let ?rec = "\<lambda>b1 next_state a1 b1'. alphabeta pc b1 next_state d a1 b1'"
    have rec_ok: "\<And>b' c a1 b1. wf_shape b' \<Longrightarrow> wf_symbols b' \<Longrightarrow> own_keys c \<Longrightarrow> consistent b' c \<Longrightarrow>
        \<exists>v c'. ?rec b' c a1 b1 = Some (v, b', c') \<and> consistent b' c' \<and> move c' = move c"
      using Suc.IH by blast
    show ?thesis
    proof (cases "player_turn st")
      case True
      have "\<exists>v' cs'. max_loop ?rec b (successors st1) NegInf alpha beta = Some (v', b, cs') \<and>
          (\<forall>c \<in> set cs'. child_ok b c)"
        by (rule max_loop_restores[where rec = "\<lambda>b1 next_state a1 b1'. alphabeta pc b1 next_state d a1 b1'",
              OF wf sy _ oks]) (rule rec_ok)
      then obtain v succs where l: "max_loop ?rec b (successors st1) NegInf alpha beta = Some (v, b, succs)"
        and ok': "\<forall>c \<in> set succs. child_ok b c" by blast
      have "alphabeta pc b st (Suc d) alpha beta =
          Some (v, b, State (move st1) v (player_turn st1) succs)"
        using g False True gs l by simp
      moreover have "consistent b (State (move st1) v (player_turn st1) succs)"
        using ok' by (simp add: consistent_iff)
      ultimately show ?thesis using mv by simp
    next
      case nt: False
      have "\<exists>v' cs'. min_loop ?rec b (successors st1) PosInf alpha beta = Some (v', b, cs') \<and>
          (\<forall>c \<in> set cs'. child_ok b c)"
        by (rule min_loop_restores[where rec = "\<lambda>b1 next_state a1 b1'. alphabeta pc b1 next_state d a1 b1'",
              OF wf sy _ oks]) (rule rec_ok)
      then obtain v succs where l: "min_loop ?rec b (successors st1) PosInf alpha beta = Some (v, b, succs)"
        and ok': "\<forall>c \<in> set succs. child_ok b c" by blast
      have "alphabeta pc b st (Suc d) alpha beta =
          Some (v, b, State (move st1) v (player_turn st1) succs)"
        using g False nt gs l by simp
      moreover have "consistent b (State (move st1) v (player_turn st1) succs)"
        using ok' by (simp add: consistent_iff)
      ultimately show ?thesis using mv by simp
    qed
  qed
qed

lemma report_restores:
  "\<forall>c \<in> set cs. child_ok b c \<Longrightarrow> report b v cs = Some b"
proof (induction cs)
  case Nil
  then show ?case by simp
next
  case (Cons c cs)
  from Cons.prems have "child_ok b c" by simp
  then obtain m b1 where "move c = Some m" "make m b = Some b1" "unmake m b1 = Some b"
    by (rule child_okE)
  then show ?case using Cons by simp
qed

lemma rounds_restore:
  "wf_shape b \<Longrightarrow> wf_symbols b \<Longrightarrow> own_keys st \<Longrightarrow> consistent b st \<Longrightarrow>
   \<exists>st'. rounds pc b st ds = Some (b, st') \<and> consistent b st' \<and> move st' = move st"
proof (induction ds arbitrary: st)
  case Nil
  then show ?case by simp
next
  case (Cons d ds)
  note wf = Cons.prems(1) and sy = Cons.prems(2)
  from alphabeta_restores[OF Cons.prems, of pc d NegInf PosInf]
  obtain v st1 where a: "alphabeta pc b st d NegInf PosInf = Some (v, b, st1)"
    and c1: "consistent b st1" and m1: "move st1 = move st" by blast
  from get_successors_consistent[OF wf c1, of pc]
  obtain st2 where gs: "get_successors pc b st1 = Some (b, st2)" and m2: "move st2 = move st1"
    and oks: "\<forall>c \<in> set (successors st2). child_ok b c" by blast
  have rp: "report b (val st2) (successors st2) = Some b" using report_restores[OF oks] .
  have c2: "consistent b st2" using oks by (simp add: consistent_iff)
  have k2: "own_keys st2" using Cons.prems(3) m1 m2 by (simp add: own_keys_def)
  from Cons.IH[OF wf sy k2 c2]
  obtain st' where "rounds pc b st2 ds = Some (b, st')" "consistent b st'" "move st' = move st2"
    by blast
  then show ?case using a gs rp m1 m2 by simp
qed



lemma pawn_root_consistent: "consistent pawn_board pawn_root"
  by code_simp

lemma own_keys_move: "move st' = move st \<Longrightarrow> own_keys st \<Longrightarrow> own_keys st'"
  by (simp add: own_keys_def)
section \<open>Priority captures come first\<close>

lemma grows_refl: "grows k moves moves"
  unfolding grows_def by (rule exI[of _ "[]"], rule exI[of _ "[]"]) simp

lemma grows_trans:
  assumes "grows k a b" "grows k b c"
  shows "grows k a c"
proof -
  from assms(1) obtain F1 B1 where 1: "b = F1 @ a @ B1"
    "\<forall>m \<in> set F1. priority_capture m \<and> origin_index m = k"
    "\<forall>m \<in> set B1. \<not> priority_capture m \<and> origin_index m = k" unfolding grows_def by blast
  from assms(2) obtain F2 B2 where 2: "c = F2 @ b @ B2"
    "\<forall>m \<in> set F2. priority_capture m \<and> origin_index m = k"
    "\<forall>m \<in> set B2. \<not> priority_capture m \<and> origin_index m = k" unfolding grows_def by blast
  have "c = (F2 @ F1) @ a @ (B1 @ B2)" using 1(1) 2(1) by simp
  moreover have "\<forall>m \<in> set (F2 @ F1). priority_capture m \<and> origin_index m = k"
    using 1(2) 2(2) by auto
  moreover have "\<forall>m \<in> set (B1 @ B2). \<not> priority_capture m \<and> origin_index m = k"
    using 1(3) 2(3) by auto
  ultimately show ?thesis unfolding grows_def by blast
qed

lemma grows_wrap:
  assumes "\<forall>m \<in> set F. priority_capture m \<and> origin_index m = k"
    "\<forall>m \<in> set B. \<not> priority_capture m \<and> origin_index m = k"
  shows "grows k moves (F @ moves @ B)"
  using assms unfolding grows_def by blast

lemma grows_front: "priority_capture m \<Longrightarrow> origin_index m = k \<Longrightarrow> grows k moves (m # moves)"
  using grows_wrap[of "[m]" k "[]" moves] by simp

lemma grows_back: "\<not> priority_capture m \<Longrightarrow> origin_index m = k \<Longrightarrow> grows k moves (moves @ [m])"
  using grows_wrap[of "[]" k "[m]" moves] by simp

lemma origin_step: "origin_index (step_move b r c r1 c1 piece) = 8 * r + c"
  by (simp add: origin_index_def step_move_def)

lemma priority_step:
  "priority_capture (step_move b r c r1 c1 piece) \<longleftrightarrow>
     is_piece (b ! nat r1 ! nat c1) \<and>
     (b ! nat r ! nat c = CHR ''P'' \<or> b ! nat r ! nat c = CHR ''p'' \<or>
      (case pieces_wgt (b ! nat r1 ! nat c1) of
         None \<Rightarrow> False
       | Some wt \<Rightarrow> (case pieces_wgt (b ! nat r ! nat c) of None \<Rightarrow> False
                     | Some wp \<Rightarrow> \<bar>wt\<bar> > \<bar>wp\<bar>)))"
  by (simp add: priority_capture_def step_move_def)



lemma amd_grows:
  assumes wf: "wf_shape b" and r: "in_range8 r" and c: "in_range8 c"
    and own: "own_piece (b ! nat r ! nat c) color"
    and np: "b ! nat r ! nat c \<noteq> CHR ''P''" "b ! nat r ! nat c \<noteq> CHR ''p''"
  shows "1 \<le> depth \<Longrightarrow>
         \<exists>ms. add_move_in_dir b moves color r c dr dc depth = Some ms \<and> grows (8 * r + c) moves ms"
proof (induction "nat (8 - depth)" arbitrary: depth moves rule: less_induct)
  case less
  let ?r1 = "r + depth * dr" and ?c1 = "c + depth * dc"
  let ?p = "b ! nat r ! nat c" and ?t = "b ! nat ?r1 ! nat ?c1"
  have pp: "is_piece ?p" using own unfolding own_piece_def is_piece_def by blast
  then obtain wp where wp: "pieces_wgt ?p = Some wp" using pieces_wgt_total by blast
  note p = cell_wf[OF wf r c]
  show ?case
  proof (cases "\<not> in_range8 ?r1 \<or> \<not> in_range8 ?c1")
    case True
    then have "add_move_in_dir b moves color r c dr dc depth = Some moves" by (rule amd_out)
    then show ?thesis using grows_refl by simp
  next
    case False
    then have r1: "in_range8 ?r1" and c1: "in_range8 ?c1" by auto
    note t = cell_wf[OF wf r1 c1]
    show ?thesis
    proof (cases "own_piece ?t color")
      case True
      have "add_move_in_dir b moves color r c dr dc depth = Some moves"
        by (rule amd_own[OF r1 c1 t True])
      then show ?thesis using grows_refl by simp
    next
      case nown: False
      have ne: "(?r1, ?c1) \<noteq> (r, c)"
      proof
        assume "(?r1, ?c1) = (r, c)"
        then have "?r1 = r" "?c1 = c" by blast+
        then have "?t = ?p" by (simp only:)
        then show False using nown own by simp
      qed
      note m2 = new_move_eq[OF wf r1 c1 r c ne, where piece = ?p]
      let ?m = "step_move b r c ?r1 ?c1 ?p"
      show ?thesis
      proof (cases "enemy_piece ?t color")
        case True
        then have pt: "is_piece ?t" unfolding is_piece_def enemy_piece_def by blast
        then obtain wt where wt: "pieces_wgt ?t = Some wt" using pieces_wgt_total by blast
        have pr: "priority_capture ?m \<longleftrightarrow> \<bar>wt\<bar> > \<bar>wp\<bar>"
          using pt np wt wp by (simp add: priority_step)
        have e: "add_move_in_dir b moves color r c dr dc depth =
            Some (if \<bar>wt\<bar> > \<bar>wp\<bar> then ?m # moves else moves @ [?m])"
          by (rule amd_cap[OF r1 c1 t nown True p m2 wt wp])
        show ?thesis
        proof (cases "\<bar>wt\<bar> > \<bar>wp\<bar>")
          case True
          then show ?thesis using e pr grows_front[of ?m "8 * r + c" moves] origin_step by simp
        next
          case False
          then show ?thesis using e pr grows_back[of ?m "8 * r + c" moves] origin_step by simp
        qed
      next
        case ncap: False
        show ?thesis
        proof (cases "?t = CHR ''.''")
          case dot: True
          have "\<not> priority_capture ?m" using dot dot_not_piece by (simp add: priority_step)
          then have g1: "grows (8 * r + c) moves (moves @ [?m])" using grows_back origin_step by blast
          have e: "add_move_in_dir b moves color r c dr dc depth =
              (if ?p \<in> set single_move_pieces then Some (moves @ [?m])
               else add_move_in_dir b (moves @ [?m]) color r c dr dc (depth + 1))"
            by (rule amd_empty[OF r1 c1 t[unfolded dot] p m2])
          show ?thesis
          proof (cases "?p \<in> set single_move_pieces")
            case True
            then show ?thesis using e g1 by simp
          next
            case slide: False
            have "dr \<noteq> 0 \<or> dc \<noteq> 0" using ne by auto
            then have "depth < 8"
              using slide_bound[OF r r1] slide_bound[OF c c1] less.prems by blast
            then have "nat (8 - (depth + 1)) < nat (8 - depth)" by simp
            from less.hyps[OF this, where moves = "moves @ [?m]"] less.prems
            obtain ms where ms: "add_move_in_dir b (moves @ [?m]) color r c dr dc (depth + 1) = Some ms"
              and g2: "grows (8 * r + c) (moves @ [?m]) ms" by fastforce
            have "grows (8 * r + c) moves ms" using g1 g2 by (rule grows_trans)
            then show ?thesis using e slide ms by simp
          qed
        next
          case False
          have "add_move_in_dir b moves color r c dr dc depth = Some moves"
            by (rule amd_other[OF r1 c1 t nown ncap False])
          then show ?thesis using grows_refl by simp
        qed
      qed
    qed
  qed
qed



lemma for_each_grows:
  assumes "\<And>x s. x \<in> set xs \<Longrightarrow> \<exists>s'. f x s = Some s' \<and> grows k s s'"
  shows "\<exists>s'. for_each xs f s = Some s' \<and> grows k s s'"
  using assms
proof (induction xs arbitrary: s)
  case Nil
  then show ?case using grows_refl by simp
next
  case (Cons x xs)
  obtain t where t: "f x s = Some t" "grows k s t" using Cons.prems[of x s] by auto
  have "\<exists>s'. for_each xs f t = Some s' \<and> grows k t s'"
    by (rule Cons.IH) (use Cons.prems in auto)
  then obtain s' where "for_each xs f t = Some s'" "grows k t s'" by blast
  then show ?case using t grows_trans by auto
qed

lemma r_moves_grows:
  assumes "wf_shape b" "in_range8 r" "in_range8 c" "own_piece (b ! nat r ! nat c) color"
    "b ! nat r ! nat c \<noteq> CHR ''P''" "b ! nat r ! nat c \<noteq> CHR ''p''"
  shows "\<exists>ms. r_moves b moves color r c = Some ms \<and> grows (8 * r + c) moves ms"
proof -
  have one: "1 \<le> (1::int)" by simp
  note t = amd_grows[OF assms one]
  obtain ms1 where 1: "add_move_in_dir b moves color r c 1 0 1 = Some ms1" "grows (8 * r + c) moves ms1"
    using t by blast
  obtain ms2 where 2: "add_move_in_dir b ms1 color r c (-1) 0 1 = Some ms2" "grows (8 * r + c) ms1 ms2"
    using t by blast
  obtain ms3 where 3: "add_move_in_dir b ms2 color r c 0 1 1 = Some ms3" "grows (8 * r + c) ms2 ms3"
    using t by blast
  obtain ms4 where 4: "add_move_in_dir b ms3 color r c 0 (-1) 1 = Some ms4" "grows (8 * r + c) ms3 ms4"
    using t by blast
  have "grows (8 * r + c) moves ms4" using 1(2) 2(2) 3(2) 4(2) grows_trans by blast
  then show ?thesis using 1 2 3 4 by (simp add: r_moves_def)
qed

lemma b_moves_grows:
  assumes "wf_shape b" "in_range8 r" "in_range8 c" "own_piece (b ! nat r ! nat c) color"
    "b ! nat r ! nat c \<noteq> CHR ''P''" "b ! nat r ! nat c \<noteq> CHR ''p''"
  shows "\<exists>ms. b_moves b moves color r c = Some ms \<and> grows (8 * r + c) moves ms"
  unfolding b_moves_def
  by (intro for_each_grows amd_grows[OF assms]) simp

lemma q_moves_grows:
  assumes "wf_shape b" "in_range8 r" "in_range8 c" "own_piece (b ! nat r ! nat c) color"
    "b ! nat r ! nat c \<noteq> CHR ''P''" "b ! nat r ! nat c \<noteq> CHR ''p''"
  shows "\<exists>ms. q_moves b moves color r c = Some ms \<and> grows (8 * r + c) moves ms"
proof -
  obtain ms1 where 1: "r_moves b moves color r c = Some ms1" "grows (8 * r + c) moves ms1"
    using r_moves_grows[OF assms] by blast
  obtain ms2 where 2: "b_moves b ms1 color r c = Some ms2" "grows (8 * r + c) ms1 ms2"
    using b_moves_grows[OF assms] by blast
  have "grows (8 * r + c) moves ms2" using 1(2) 2(2) by (rule grows_trans)
  then show ?thesis using 1 2 by (simp add: q_moves_def)
qed

lemma n_moves_grows:
  assumes "wf_shape b" "in_range8 r" "in_range8 c" "own_piece (b ! nat r ! nat c) color"
    "b ! nat r ! nat c \<noteq> CHR ''P''" "b ! nat r ! nat c \<noteq> CHR ''p''"
  shows "\<exists>ms. n_moves b moves color r c = Some ms \<and> grows (8 * r + c) moves ms"
  unfolding n_moves_def
proof (intro for_each_grows)
  fix dr dc :: int and s
  have one: "1 \<le> (1::int)" by simp
  show "\<exists>s'. (if \<bar>dr\<bar> + \<bar>dc\<bar> = 3 then add_move_in_dir b s color r c dr dc 1 else Some s) = Some s' \<and>
        grows (8 * r + c) s s'"
    using amd_grows[OF assms one, where moves = s and dr = dr and dc = dc] grows_refl by simp
qed

lemma k_moves_grows:
  assumes "wf_shape b" "in_range8 r" "in_range8 c" "own_piece (b ! nat r ! nat c) color"
    "b ! nat r ! nat c \<noteq> CHR ''P''" "b ! nat r ! nat c \<noteq> CHR ''p''"
  shows "\<exists>ms. k_moves b moves color r c = Some ms \<and> grows (8 * r + c) moves ms"
  unfolding k_moves_def
proof (intro for_each_grows)
  fix dr dc :: int and s
  have one: "1 \<le> (1::int)" by simp
  show "\<exists>s'. (if \<bar>dr\<bar> + \<bar>dc\<bar> = 1 \<or> True then add_move_in_dir b s color r c dr dc 1 else Some s) = Some s' \<and>
        grows (8 * r + c) s s'"
    using amd_grows[OF assms one, where moves = s and dr = dr and dc = dc] by simp
qed



lemma wp_moves_grows:
  assumes wf: "wf_shape b" and r: "in_range8 r" and c: "in_range8 c"
    and pawn: "b ! nat r ! nat c = CHR ''P''"
  shows "\<exists>ms. wp_moves b moves r c = Some ms \<and> grows (8 * r + c) moves ms"
proof (cases "r + 1 < 8")
  case False
  then have "wp_moves b moves r c = Some moves" by (simp add: wp_moves_def)
  then show ?thesis using grows_refl by simp
next
  case True
  have c1: "priority_capture (step_move b r c r1 c' pc)"
    if "b ! nat r1 ! nat c' \<in> set black_pieces" for r1 c' pc
    using that pawn by (simp add: priority_step is_piece_def)
  have q1: "\<not> priority_capture (step_move b r c r1 c' pc)"
    if "b ! nat r1 ! nat c' = CHR ''.''" for r1 c' pc
    using that dot_not_piece by (simp add: priority_step)
  have f: "\<forall>m \<in> set (wp_captures b r c). priority_capture m \<and> origin_index m = 8 * r + c"
    using c1 origin_step by (auto simp: wp_captures_def)
  have q: "\<forall>m \<in> set (wp_quiet b r c). \<not> priority_capture m \<and> origin_index m = 8 * r + c"
    using q1 origin_step by (auto simp: wp_quiet_def)
  show ?thesis using wp_moves_eq[OF wf r c True] grows_wrap[OF f q] by simp
qed

lemma bp_moves_grows:
  assumes wf: "wf_shape b" and r: "in_range8 r" and c: "in_range8 c"
    and pawn: "b ! nat r ! nat c = CHR ''p''"
  shows "\<exists>ms. bp_moves b moves r c = Some ms \<and> grows (8 * r + c) moves ms"
proof (cases "r - 1 > -1")
  case False
  then have "bp_moves b moves r c = Some moves" by (simp add: bp_moves_def)
  then show ?thesis using grows_refl by simp
next
  case True
  have c1: "priority_capture (step_move b r c r1 c' pc)"
    if "b ! nat r1 ! nat c' \<in> set white_pieces" for r1 c' pc
    using that pawn by (simp add: priority_step is_piece_def)
  have q1: "\<not> priority_capture (step_move b r c r1 c' pc)"
    if "b ! nat r1 ! nat c' = CHR ''.''" for r1 c' pc
    using that dot_not_piece by (simp add: priority_step)
  have f: "\<forall>m \<in> set (bp_captures b r c). priority_capture m \<and> origin_index m = 8 * r + c"
    using c1 origin_step by (auto simp: bp_captures_def)
  have q: "\<forall>m \<in> set (bp_quiet b r c). \<not> priority_capture m \<and> origin_index m = 8 * r + c"
    using q1 origin_step by (auto simp: bp_quiet_def)
  show ?thesis using bp_moves_eq[OF wf r c True] grows_wrap[OF f q] by simp
qed



lemma white_cell_grows:
  assumes wf: "wf_shape b" and r: "in_range8 r" and c: "in_range8 c"
  shows "\<exists>ms. white_cell b ''w'' r c moves = Some ms \<and> grows (8 * r + c) moves ms"
proof -
  let ?x = "b ! nat r ! nat c"
  note x = cell_wf[OF wf r c]
  have own: "own_piece ?x ''w''" if "?x \<in> set ''RBNQK''"
    using that unfolding own_piece_def white_pieces_def by (simp, elim disjE) simp_all
  consider "?x = CHR ''P''" | "?x = CHR ''R''" | "?x = CHR ''B''" | "?x = CHR ''N''"
    | "?x = CHR ''Q''" | "?x = CHR ''K''" | "?x \<notin> set ''PRBNQK''" by auto
  then show ?thesis
  proof cases
    case 1
    then show ?thesis using x wp_moves_grows[OF wf r c 1, of moves] by (simp add: white_cell_def)
  next
    case 2
    then show ?thesis using x r_moves_grows[OF wf r c own, of moves] by (simp add: white_cell_def)
  next
    case 3
    then show ?thesis using x b_moves_grows[OF wf r c own, of moves] by (simp add: white_cell_def)
  next
    case 4
    then show ?thesis using x n_moves_grows[OF wf r c own, of moves] by (simp add: white_cell_def)
  next
    case 5
    then show ?thesis using x q_moves_grows[OF wf r c own, of moves] by (simp add: white_cell_def)
  next
    case 6
    then show ?thesis using x k_moves_grows[OF wf r c own, of moves] by (simp add: white_cell_def)
  next
    case 7
    then show ?thesis using x grows_refl by (simp add: white_cell_def)
  qed
qed

lemma black_cell_grows:
  assumes wf: "wf_shape b" and r: "in_range8 r" and c: "in_range8 c"
  shows "\<exists>ms. black_cell b ''b'' r c moves = Some ms \<and> grows (8 * r + c) moves ms"
proof -
  let ?x = "b ! nat r ! nat c"
  note x = cell_wf[OF wf r c]
  have own: "own_piece ?x ''b''" if "?x \<in> set ''rbnqk''"
    using that unfolding own_piece_def black_pieces_def by (simp, elim disjE) simp_all
  consider "?x = CHR ''p''" | "?x = CHR ''r''" | "?x = CHR ''b''" | "?x = CHR ''n''"
    | "?x = CHR ''q''" | "?x = CHR ''k''" | "?x \<notin> set ''prbnqk''" by auto
  then show ?thesis
  proof cases
    case 1
    then show ?thesis using x bp_moves_grows[OF wf r c 1, of moves] by (simp add: black_cell_def)
  next
    case 2
    then show ?thesis using x r_moves_grows[OF wf r c own, of moves] by (simp add: black_cell_def)
  next
    case 3
    then show ?thesis using x b_moves_grows[OF wf r c own, of moves] by (simp add: black_cell_def)
  next
    case 4
    then show ?thesis using x n_moves_grows[OF wf r c own, of moves] by (simp add: black_cell_def)
  next
    case 5
    then show ?thesis using x q_moves_grows[OF wf r c own, of moves] by (simp add: black_cell_def)
  next
    case 6
    then show ?thesis using x k_moves_grows[OF wf r c own, of moves] by (simp add: black_cell_def)
  next
    case 7
    then show ?thesis using x grows_refl by (simp add: black_cell_def)
  qed
qed

lemma same_origin_sorted:
  assumes "\<forall>m \<in> set xs. origin_index m = k"
  shows "sorted_wrt (\<lambda>m1 m2. origin_index m2 \<le> origin_index m1) xs"
    and "sorted_wrt (\<lambda>m1 m2. origin_index m1 \<le> origin_index m2) xs"
  using assms by (induction xs) auto

lemma ordered_step:
  assumes o: "ordered_below k s" and g: "grows j s s'" and kj: "k \<le> j"
  shows "ordered_below (j + 1) s'"
proof -
  from o obtain F B where s: "s = F @ B"
    and pF: "\<forall>m \<in> set F. priority_capture m" and pB: "\<forall>m \<in> set B. \<not> priority_capture m"
    and sF: "sorted_wrt (\<lambda>m1 m2. origin_index m2 \<le> origin_index m1) F"
    and sB: "sorted_wrt (\<lambda>m1 m2. origin_index m1 \<le> origin_index m2) B"
    and lt: "\<forall>m \<in> set s. origin_index m < k"
    unfolding ordered_below_def by blast
  from g obtain F' B' where s': "s' = F' @ s @ B'"
    and pF': "\<forall>m \<in> set F'. priority_capture m \<and> origin_index m = j"
    and pB': "\<forall>m \<in> set B'. \<not> priority_capture m \<and> origin_index m = j"
    unfolding grows_def by blast
  have oF': "\<forall>m \<in> set F'. origin_index m = j" and oB': "\<forall>m \<in> set B'. origin_index m = j"
    using pF' pB' by blast+
  have ltF: "\<forall>m \<in> set F. origin_index m < k" and ltB: "\<forall>m \<in> set B. origin_index m < k"
    using lt s by auto
  have 1: "s' = (F' @ F) @ (B @ B')" using s s' by simp
  have 2: "\<forall>m \<in> set (F' @ F). priority_capture m" using pF pF' by auto
  have 3: "\<forall>m \<in> set (B @ B'). \<not> priority_capture m" using pB pB' by auto
  have "\<forall>x \<in> set F'. \<forall>y \<in> set F. origin_index y \<le> origin_index x"
    using oF' ltF kj by fastforce
  then have 4: "sorted_wrt (\<lambda>m1 m2. origin_index m2 \<le> origin_index m1) (F' @ F)"
    using sF same_origin_sorted(1)[OF oF'] by (simp add: sorted_wrt_append)
  have "\<forall>x \<in> set B. \<forall>y \<in> set B'. origin_index x \<le> origin_index y"
    using oB' ltB kj by fastforce
  then have 5: "sorted_wrt (\<lambda>m1 m2. origin_index m1 \<le> origin_index m2) (B @ B')"
    using sB same_origin_sorted(2)[OF oB'] by (simp add: sorted_wrt_append)
  have 6: "\<forall>m \<in> set s'. origin_index m < j + 1"
    using s' oF' oB' lt kj by fastforce
  show ?thesis unfolding ordered_below_def using 1 2 3 4 5 6 by blast
qed

lemma for_each_index:
  assumes "I 0 s"
    and "\<And>n t. n < length xs \<Longrightarrow> I n t \<Longrightarrow> \<exists>t'. f (xs ! n) t = Some t' \<and> I (Suc n) t'"
  shows "\<exists>s'. for_each xs f s = Some s' \<and> I (length xs) s'"
  using assms
proof (induction xs arbitrary: s I)
  case Nil
  then show ?case by simp
next
  case (Cons x xs)
  obtain t where t: "f x s = Some t" "I (Suc 0) t" using Cons.prems(2)[of 0 s] Cons.prems(1) by auto
  have "\<exists>s'. for_each xs f t = Some s' \<and> (\<lambda>n. I (Suc n)) (length xs) s'"
  proof (rule Cons.IH)
    show "I (Suc 0) t" by (rule t(2))
  next
    fix n u
    assume "n < length xs" "I (Suc n) u"
    then show "\<exists>t'. f (xs ! n) u = Some t' \<and> I (Suc (Suc n)) t'"
      using Cons.prems(2)[of "Suc n" u] by simp
  qed
  then show ?case using t by simp
qed

lemma scan_nth:
  assumes "n < 8"
  shows "[0, 1, 2, 3, 4, 5, 6, 7 :: int] ! n = int n" and "in_range8 (int n)"
proof -
  from assms consider "n = 0" | "n = 1" | "n = 2" | "n = 3" | "n = 4" | "n = 5" | "n = 6" | "n = 7"
    by linarith
  then show "[0, 1, 2, 3, 4, 5, 6, 7 :: int] ! n = int n" by cases simp_all
  show "in_range8 (int n)" using assms by (simp add: in_range8_def)
qed

lemma scan_ordered:
  assumes cell: "\<And>r c moves. in_range8 r \<Longrightarrow> in_range8 c \<Longrightarrow>
      \<exists>ms. f r c moves = Some ms \<and> grows (8 * r + c) moves ms"
  shows "\<exists>ms. for_each [0, 1, 2, 3, 4, 5, 6, 7]
            (\<lambda>r. for_each [0, 1, 2, 3, 4, 5, 6, 7] (f r)) [] = Some ms \<and> ordered_below 64 ms"
proof -
  let ?xs = "[0, 1, 2, 3, 4, 5, 6, 7 :: int]"
  have row: "\<exists>t'. for_each ?xs (f (?xs ! n)) t = Some t' \<and> ordered_below (8 * int (Suc n)) t'"
    if n: "n < length ?xs" and t: "ordered_below (8 * int n) t" for n t
  proof -
    have n8: "n < 8" using n by simp
    have "\<exists>t'. for_each ?xs (f (int n)) t = Some t' \<and>
            (\<lambda>k u. ordered_below (8 * int n + int k) u) (length ?xs) t'"
    proof (rule for_each_index)
      show "ordered_below (8 * int n + int 0) t" using t by simp
    next
      fix k u
      assume k: "k < length ?xs" and u: "ordered_below (8 * int n + int k) u"
      have k8: "k < 8" using k by simp
      obtain u' where u': "f (int n) (int k) u = Some u'" "grows (8 * int n + int k) u u'"
        using cell[OF scan_nth(2)[OF n8] scan_nth(2)[OF k8], of u] by blast
      have "ordered_below (8 * int n + int k + 1) u'"
        by (rule ordered_step[OF u u'(2)]) simp
      moreover have "8 * int n + int k + 1 = 8 * int n + int (Suc k)" by simp
      ultimately have "ordered_below (8 * int n + int (Suc k)) u'" by (simp only:)
      then show "\<exists>t'. f (int n) (?xs ! k) u = Some t' \<and> ordered_below (8 * int n + int (Suc k)) t'"
        using u'(1) scan_nth(1)[OF k8] by (simp only:) blast
    qed
    moreover have "8 * int n + int (length ?xs) = 8 * int (Suc n)" by simp
    ultimately show ?thesis using scan_nth(1)[OF n8] by (simp only:)
  qed
  have "\<exists>ms. for_each ?xs (\<lambda>r. for_each ?xs (f r)) [] = Some ms \<and>
          (\<lambda>n t. ordered_below (8 * int n) t) (length ?xs) ms"
  proof (rule for_each_index)
    show "ordered_below (8 * int 0) []" by (simp add: ordered_below_def)
  next
    fix n t
    assume "n < length ?xs" "ordered_below (8 * int n) t"
    then show "\<exists>t'. for_each ?xs (f (?xs ! n)) t = Some t' \<and> ordered_below (8 * int (Suc n)) t'"
      by (rule row)
  qed
  moreover have "8 * int (length ?xs) = 64" by simp
  ultimately show ?thesis by (simp only:)
qed

lemma possible_moves_ordered:
  assumes wf: "wf_shape b"
  shows "\<exists>ms. possible_moves b color = Some ms \<and> ordered_below 64 ms"
proof -
  have w: "\<exists>ms. for_each [0, 1, 2, 3, 4, 5, 6, 7]
        (\<lambda>r. for_each [0, 1, 2, 3, 4, 5, 6, 7] (white_cell b ''w'' r)) [] = Some ms \<and>
        ordered_below 64 ms"
    by (rule scan_ordered) (rule white_cell_grows[OF wf])
  have bl: "\<exists>ms. for_each [0, 1, 2, 3, 4, 5, 6, 7]
        (\<lambda>r. for_each [0, 1, 2, 3, 4, 5, 6, 7] (black_cell b ''b'' r)) [] = Some ms \<and>
        ordered_below 64 ms"
    by (rule scan_ordered) (rule black_cell_grows[OF wf])
  show ?thesis
  proof (cases "color = ''w''")
    case True
    show ?thesis unfolding True possible_moves_w by (rule w)
  next
    case nw: False
    show ?thesis
    proof (cases "color = ''b''")
      case True
      show ?thesis unfolding True possible_moves_b by (rule bl)
    next
      case False
      then show ?thesis using nw by (simp add: possible_moves_def ordered_below_def)
    qed
  qed
qed

lemma ordering_board_moves:
  "possible_moves ordering_board ''w'' =
     Some ([step_move ordering_board 1 0 2 1 (CHR ''P''),
            step_move ordering_board 0 0 1 2 (CHR ''N'')] @
           [step_move ordering_board 0 0 2 1 (CHR ''N''),
            step_move ordering_board 1 0 2 0 (CHR ''P''),
            step_move ordering_board 1 0 3 0 (CHR ''P'')])"
  by code_simp

lemma ordering_board_wf: "wf_shape ordering_board"
  by (simp add: wf_shape_def ordering_board_def)

lemma ordering_board_priorities:
  "priority_capture (step_move ordering_board 1 0 2 1 (CHR ''P''))"
  "priority_capture (step_move ordering_board 0 0 1 2 (CHR ''N''))"
  "\<not> priority_capture (step_move ordering_board 0 0 2 1 (CHR ''N''))"
  "\<not> priority_capture (step_move ordering_board 1 0 2 0 (CHR ''P''))"
  "\<not> priority_capture (step_move ordering_board 1 0 3 0 (CHR ''P''))"
  by code_simp+

lemma ordering_board_origins:
  "origin_index (step_move ordering_board 1 0 2 1 (CHR ''P'')) = 8"
  "origin_index (step_move ordering_board 0 0 1 2 (CHR ''N'')) = 0"
  "origin_index (step_move ordering_board 0 0 2 1 (CHR ''N'')) = 0"
  "origin_index (step_move ordering_board 1 0 2 0 (CHR ''P'')) = 8"
  "origin_index (step_move ordering_board 1 0 3 0 (CHR ''P'')) = 8"
  by (simp_all add: origin_step)


section \<open>C1: alphabeta gives the board back\<close>

text \<open>
  Claim C1. Let the board be an 8x8 board of valid symbols in the position of the node: the
  node's cached children, at every level, were generated from the board that making the moves
  down to them produces. Then \<^verbatim>\<open>alphabeta\<close> returns, for every depth and every window, and the
  board when it returns is the board when it was called, cell for cell; the board is again in
  the position of the node as the call leaves it, so the same holds for the next call. In
  particular every sequence of rounds of the driver (one \<^verbatim>\<open>alphabeta\<close> call from the root per
  depth, then making, printing and unmaking the chosen child) ends with the board it began
  with.
\<close>

theorem alphabeta_restores_board:
  assumes "wf_shape b" and "wf_symbols b" and "own_keys st" and "consistent b st"
  shows "(\<exists>v st'. alphabeta pc b st d alpha beta = Some (v, b, st') \<and>
                   own_keys st' \<and> consistent b st') \<and>
         (\<exists>st'. rounds pc b st ds = Some (b, st') \<and> own_keys st' \<and> consistent b st')"
proof
  from alphabeta_restores[OF assms, of pc d alpha beta]
  show "\<exists>v st'. alphabeta pc b st d alpha beta = Some (v, b, st') \<and>
                   own_keys st' \<and> consistent b st'"
    using own_keys_move[OF _ assms(3)] by blast
next
  from rounds_restore[OF assms, of pc ds]
  show "\<exists>st'. rounds pc b st ds = Some (b, st') \<and> own_keys st' \<and> consistent b st'"
    using own_keys_move[OF _ assms(3)] by blast
qed

theorem alphabeta_restores_board_witness:
  "wf_shape pawn_board \<and> wf_symbols pawn_board \<and> own_keys pawn_root \<and>
   consistent pawn_board pawn_root \<and>
   map_option (fst \<circ> snd) (alphabeta ''w'' pawn_board pawn_root 3 NegInf PosInf) = Some pawn_board \<and>
   map_option fst (rounds ''w'' pawn_board pawn_root [2, 3]) = Some pawn_board"
proof -
  have k: "own_keys pawn_root" by (simp add: own_keys_def pawn_root_def)
  from alphabeta_restores_board[OF pawn_board_wf k pawn_root_consistent,
      of "''w''" 3 NegInf PosInf "[2, 3]"]
  obtain v st' st'' where "alphabeta ''w'' pawn_board pawn_root 3 NegInf PosInf = Some (v, pawn_board, st')"
    "rounds ''w'' pawn_board pawn_root [2, 3] = Some (pawn_board, st'')" by blast
  then show ?thesis using pawn_board_wf k pawn_root_consistent by simp
qed

section \<open>C10: evaluate leaves the board alone\<close>

text \<open>
  Claim C10. On an 8x8 board of valid symbols, for a node whose children (if it has any)
  carry moves, \<^verbatim>\<open>evaluate\<close> returns a value, and the board it leaves is the board it was given,
  cell for cell. The node may change: \<^verbatim>\<open>mobility\<close> fills its successor list.
\<close>

theorem evaluate_keeps_board:
  assumes "wf_shape b" and "wf_symbols b" and "\<forall>c \<in> set (successors st). move c \<noteq> None"
  shows "\<exists>v st'. evaluate pc b st = Some (v, b, st')"
  using evaluate_total[OF assms] by blast

theorem evaluate_keeps_board_witness:
  "wf_shape pawn_board \<and> wf_symbols pawn_board \<and> successors root = [] \<and>
   evaluate ''w'' pawn_board root = Some (5 / 4, pawn_board, pawn_root) \<and> pawn_root \<noteq> root"
proof -
  have s: "successors root = []" by (simp add: root_def)
  then have c: "\<forall>c \<in> set (successors root). move c \<noteq> None" by simp
  show ?thesis
    using evaluate_keeps_board[OF pawn_board_wf c, of "''w''"] pawn_board_wf s pawn_board_evaluate
    by (simp add: root_def pawn_root_def)
qed

section \<open>C2: make followed by unmake restores the board\<close>

text \<open>
  Claim C2. For every move that \<^verbatim>\<open>possible_moves\<close> produces on a board \<open>b\<close>, running
  \<^verbatim>\<open>move.make()\<close> and then \<^verbatim>\<open>move.unmake()\<close> on \<open>b\<close> succeeds and leaves the board equal
  to \<open>b\<close>, cell for cell. The board and the colour are arbitrary, so this covers every
  board met during the search.
\<close>

theorem make_unmake_restores:
  assumes "possible_moves b color = Some ms" and "m \<in> set ms"
  shows "make m b \<bind> unmake m = Some b"
proof -
  have "move_ok b m" using possible_moves_ok[OF assms(1)] assms(2) by (simp add: all_ok_def)
  from make_unmake[OF this] show ?thesis by auto
qed

theorem make_unmake_restores_witness:
  "possible_moves pawn_board ''w'' = Some [pawn_capture, pawn_step, pawn_double] \<and>
   pawn_capture \<in> set [pawn_capture, pawn_step, pawn_double] \<and>
   make pawn_capture pawn_board \<bind> unmake pawn_capture = Some pawn_board"
  using make_unmake_restores[of pawn_board "''w''" "[pawn_capture, pawn_step, pawn_double]" pawn_capture]
    pawn_board_moves by simp

section \<open>C3: terminal nodes\<close>

text \<open>
  Claim C3. For a node whose move (if it has one) was built by \<^verbatim>\<open>add_change\<close>, so that every key
  of \<^verbatim>\<open>undo_changes\<close> is a key of \<^verbatim>\<open>changes\<close>: \<^verbatim>\<open>is_game_over\<close> is true if and only if the node
  has a move and some key of its undo map records a white king \<^verbatim>\<open>'K'\<close> replaced by a black
  piece or a black king \<^verbatim>\<open>'k'\<close> replaced by a white piece (so the root, with no move, is never
  terminal, and a king that leaves its square, which then holds \<^verbatim>\<open>'.'\<close>, does not make the
  node terminal). When the depth is 0 or \<^verbatim>\<open>is_game_over\<close> is true, \<^verbatim>\<open>alphabeta\<close> is exactly:
  evaluate the node, store the value in \<^verbatim>\<open>state.val\<close> and return it, whatever the depth.
\<close>



theorem terminal_nodes:
  assumes "case move st of None \<Rightarrow> True
           | Some m \<Rightarrow> fst ` set (undo_changes m) \<subseteq> fst ` set (changes m)"
  shows "is_game_over st =
           Some (\<exists>m. move st = Some m \<and>
                  (\<exists>(key, u) \<in> set (undo_changes m). \<exists>n. map_of (changes m) key = Some n \<and>
                     (u = CHR ''K'' \<and> n \<in> set black_pieces \<or>
                      u = CHR ''k'' \<and> n \<in> set white_pieces))) \<and>
         (d = 0 \<or> is_game_over st = Some True \<longrightarrow>
          alphabeta pc b st d alpha beta =
            do { (v, b', st') \<leftarrow> evaluate pc b st;
                 Some (Fin v, b', State (move st') (Fin v) (player_turn st') (successors st')) })"
proof (intro conjI impI)
  show "is_game_over st =
           Some (\<exists>m. move st = Some m \<and>
                  (\<exists>(key, u) \<in> set (undo_changes m). \<exists>n. map_of (changes m) key = Some n \<and>
                     (u = CHR ''K'' \<and> n \<in> set black_pieces \<or>
                      u = CHR ''k'' \<and> n \<in> set white_pieces)))"
  proof (cases "move st")
    case None
    then show ?thesis by (simp add: is_game_over_def)
  next
    case (Some m)
    then have "fst ` set (undo_changes m) \<subseteq> fst ` set (changes m)" using assms by simp
    from king_taken_iff[OF this] show ?thesis using Some by (simp add: is_game_over_def)
  qed
next
  assume "d = 0 \<or> is_game_over st = Some True"
  then show "alphabeta pc b st d alpha beta =
            do { (v, b', st') \<leftarrow> evaluate pc b st;
                 Some (Fin v, b', State (move st') (Fin v) (player_turn st') (successors st')) }"
    by (cases d) (auto simp: leaf_def)
qed

theorem terminal_nodes_witness:
  "fst ` set (undo_changes king_capture) \<subseteq> fst ` set (changes king_capture) \<and>
   is_game_over king_capture_node = Some True \<and>
   is_game_over root = Some False \<and>
   alphabeta ''w'' empty_board king_capture_node 3 NegInf PosInf =
     do { (v, b', st') \<leftarrow> evaluate ''w'' empty_board king_capture_node;
          Some (Fin v, b', State (move st') (Fin v) (player_turn st') (successors st')) }"
proof -
  have k: "case move king_capture_node of None \<Rightarrow> True
           | Some m \<Rightarrow> fst ` set (undo_changes m) \<subseteq> fst ` set (changes m)"
    by (simp add: king_capture_node_def king_capture_def)
  have g: "is_game_over king_capture_node = Some True"
    by (simp add: is_game_over_def king_capture_node_def king_capture_def black_pieces_def)
  have r: "is_game_over root = Some False" by (simp add: is_game_over_def root_def)
  show ?thesis
    using terminal_nodes[OF k, of 3 "''w''" empty_board NegInf PosInf] g r
    by (simp add: king_capture_def)
qed

section \<open>C4: the cached successor list\<close>

text \<open>
  The node stores no flag beside the list: \<^verbatim>\<open>get_successors\<close> computes the children whenever
  \<^verbatim>\<open>len(self.successors) == 0\<close>. For the root on a board without white pieces the first call
  yields the empty list and leaves the node as it was; a later call of the same node, after
  the board has changed, computes three children. So "computed at most once, every later call
  returns the cached list" fails for a node whose list came out empty.
\<close>



theorem successors_recomputed_counterexample:
  "get_successors ''w'' empty_board root = Some (empty_board, root) \<and>
   get_successors ''w'' pawn_board root = Some (pawn_board, pawn_root) \<and>
   successors pawn_root \<noteq> successors root"
proof -
  have "get_successors ''w'' pawn_board root = Some (pawn_board, pawn_root)"
    using pawn_board_moves by (simp add: get_successors_def root_def pawn_root_def)
  then show ?thesis using empty_board_root by (simp add: pawn_root_def root_def)
qed

text \<open>
  Claim C4, amended. After any call of \<^verbatim>\<open>get_successors\<close>: if the node's list is non-empty, every
  later call returns the node unchanged, with the same list, whatever the board is then; if
  the list is empty, nothing was cached and the next call computes the children again from
  the board of that moment.
\<close>

theorem successors_cached:
  assumes "get_successors pc b st = Some (b1, st1)"
  shows "(successors st1 \<noteq> [] \<longrightarrow> get_successors pc b2 st1 = Some (b2, st1)) \<and>
         (successors st1 = [] \<longrightarrow>
            get_successors pc b2 st1 =
              do { moves \<leftarrow> possible_moves b2 (if player_turn st then pc else opponent_color pc);
                   Some (b2, State (move st) (val st) (player_turn st)
                           (map (\<lambda>m. State (Some m) (Fin 0) (\<not> player_turn st) []) moves)) })"
proof -
  from assms have "st1 = st \<or> (successors st = [] \<and> move st1 = move st \<and> val st1 = val st \<and>
      player_turn st1 = player_turn st)"
    by (auto simp: get_successors_def bind_eq_Some_conv split: if_splits)
  then show ?thesis
    by (cases st1) (auto simp: get_successors_def)
qed

theorem successors_cached_witness:
  "get_successors ''w'' pawn_board root = Some (pawn_board, pawn_root) \<and>
   successors pawn_root \<noteq> [] \<and>
   get_successors ''w'' empty_board pawn_root = Some (empty_board, pawn_root) \<and>
   get_successors ''w'' empty_board root = Some (empty_board, root) \<and>
   successors root = [] \<and>
   get_successors ''w'' pawn_board root =
     do { moves \<leftarrow> possible_moves pawn_board ''w'';
          Some (pawn_board, State None (Fin 0) True
                  (map (\<lambda>m. State (Some m) (Fin 0) False []) moves)) }"
proof -
  have g: "get_successors ''w'' pawn_board root = Some (pawn_board, pawn_root)"
    using pawn_board_moves by (simp add: get_successors_def root_def pawn_root_def)
  have n: "successors pawn_root \<noteq> []" by (simp add: pawn_root_def)
  have e: "successors root = []" by (simp add: root_def)
  show ?thesis
    using successors_cached[OF g, of empty_board] successors_cached[OF empty_board_root, of pawn_board]
      g n e empty_board_root
    by (simp add: root_def)
qed

section \<open>C5: the moves of a king\<close>

text \<open>
  Claim C5. On an 8x8 board of valid symbols, for the king of the colour that is generating
  (\<^verbatim>\<open>'K'\<close> with \<^verbatim>\<open>'w'\<close>, \<^verbatim>\<open>'k'\<close> with \<^verbatim>\<open>'b'\<close>), \<^verbatim>\<open>k_moves\<close> appends exactly one move for each
  of the eight neighbouring squares that is on the board and does not hold a piece of the
  king's own colour, and nothing else: the offsets are the eight non-zero ones with both
  components of absolute value at most one, so no move goes to the king's own square and none
  is longer than one step.
\<close>

theorem king_moves_exact:
  assumes wf: "wf_shape b" and sy: "wf_symbols b" and r: "in_range8 r" and c: "in_range8 c"
    and king: "(b ! nat r ! nat c = CHR ''K'' \<and> color = ''w'') \<or>
               (b ! nat r ! nat c = CHR ''k'' \<and> color = ''b'')"
  shows "k_moves b moves color r c =
         Some (moves @ map (\<lambda>d. step_move b r c (r + fst d) (c + snd d) (b ! nat r ! nat c))
                         (filter (king_target_ok b color r c) king_offsets)) \<and>
         (0, 0) \<notin> set king_offsets \<and>
         (\<forall>d \<in> set king_offsets. \<bar>fst d\<bar> \<le> 1 \<and> \<bar>snd d\<bar> \<le> 1)"
proof -
  define K where "K d = (if king_target_ok b color r c d
      then [step_move b r c (r + fst d) (c + snd d) (b ! nat r ! nat c)] else [])" for d
  obtain wp where wp: "pieces_wgt (b ! nat r ! nat c) = Some wp" "\<bar>wp\<bar> = 200"
    using king_is_own(3)[OF king] by blast
  have call: "add_move_in_dir b ms color r c dr dc 1 = Some (ms @ K (dr, dc))" for ms dr dc
    using king_call[OF wf sy r c king_is_own(1)[OF king] king_is_own(2)[OF king] wp, of ms dr dc]
    by (simp add: K_def)
  have self: "K (0, 0) = []"
    using king_is_own(1)[OF king] by (simp add: K_def king_target_ok_def)
  have "k_moves b moves color r c = Some (moves @ concat (map K king_offsets))"
    by (simp add: k_moves_def call self king_offsets_def)
  also have "concat (map K king_offsets) =
      map (\<lambda>d. step_move b r c (r + fst d) (c + snd d) (b ! nat r ! nat c))
          (filter (king_target_ok b color r c) king_offsets)"
    unfolding K_def by (rule concat_map_if)
  finally have "k_moves b moves color r c =
         Some (moves @ map (\<lambda>d. step_move b r c (r + fst d) (c + snd d) (b ! nat r ! nat c))
                         (filter (king_target_ok b color r c) king_offsets))" .
  then show ?thesis by (simp add: king_offsets_def)
qed

lemma king_board_wf: "wf_shape king_board" "wf_symbols king_board"
  by (simp_all add: wf_shape_def wf_symbols_def king_board_def is_piece_def
      white_pieces_def black_pieces_def)

theorem king_moves_exact_witness:
  "wf_shape king_board \<and> wf_symbols king_board \<and> in_range8 1 \<and> in_range8 5 \<and>
   king_board ! nat 1 ! nat 5 = CHR ''K'' \<and>
   k_moves king_board [] ''w'' 1 5 =
     Some (map (\<lambda>d. step_move king_board 1 5 (1 + fst d) (5 + snd d) (CHR ''K''))
            [(-1, -1), (-1, 0), (-1, 1), (0, 1), (1, -1), (1, 0), (1, 1)])"
proof -
  have rng: "in_range8 1" "in_range8 5" by (simp_all add: in_range8_def)
  have k: "king_board ! nat 1 ! nat 5 = CHR ''K''" by (simp add: king_board_def)
  have f: "filter (king_target_ok king_board ''w'' 1 5) king_offsets =
      [(-1, -1), (-1, 0), (-1, 1), (0, 1), (1, -1), (1, 0), (1, 1)]"
    by (simp add: king_offsets_def king_target_ok_def in_range8_def own_piece_def
        white_pieces_def black_pieces_def king_board_def)
  show ?thesis
    using king_moves_exact[OF king_board_wf rng, of "''w''" "[]"] king_board_wf rng k f
    by simp
qed

section \<open>C6: where captures stand in the move list\<close>

text \<open>
  Claim C6. On an 8x8 board, for every colour, \<^verbatim>\<open>possible_moves\<close> returns a list that splits in
  two: in front, the moves that were inserted at the front, which are exactly the priority
  captures (every diagonal capture by a pawn, whatever the weights, and every capture by
  another piece in which the absolute weight of the captured piece exceeds that of the
  capturing piece); behind them, the moves that were appended, which are all the others (the
  captures by another piece of a piece of no greater absolute weight, and the quiet moves).
  Each insertion goes to the very front and each appended move to the very end: in the
  front part the moves of a square scanned later stand before those of a square scanned
  earlier, in the back part they stand after them.
\<close>

theorem capture_ordering:
  assumes "wf_shape b"
  shows "\<exists>front back. possible_moves b color = Some (front @ back) \<and>
           (\<forall>m \<in> set front. priority_capture m) \<and> (\<forall>m \<in> set back. \<not> priority_capture m) \<and>
           sorted_wrt (\<lambda>m1 m2. origin_index m2 \<le> origin_index m1) front \<and>
           sorted_wrt (\<lambda>m1 m2. origin_index m1 \<le> origin_index m2) back"
proof -
  from possible_moves_ordered[OF assms, of color]
  obtain ms where "possible_moves b color = Some ms" "ordered_below 64 ms" by blast
  then show ?thesis unfolding ordered_below_def by auto
qed

theorem capture_ordering_witness:
  "wf_shape ordering_board \<and>
   possible_moves ordering_board ''w'' =
     Some ([step_move ordering_board 1 0 2 1 (CHR ''P''),
            step_move ordering_board 0 0 1 2 (CHR ''N'')] @
           [step_move ordering_board 0 0 2 1 (CHR ''N''),
            step_move ordering_board 1 0 2 0 (CHR ''P''),
            step_move ordering_board 1 0 3 0 (CHR ''P'')]) \<and>
   priority_capture (step_move ordering_board 1 0 2 1 (CHR ''P'')) \<and>
   priority_capture (step_move ordering_board 0 0 1 2 (CHR ''N'')) \<and>
   \<not> priority_capture (step_move ordering_board 0 0 2 1 (CHR ''N'')) \<and>
   \<not> priority_capture (step_move ordering_board 1 0 2 0 (CHR ''P'')) \<and>
   \<not> priority_capture (step_move ordering_board 1 0 3 0 (CHR ''P'')) \<and>
   origin_index (step_move ordering_board 1 0 2 1 (CHR ''P'')) = 8 \<and>
   origin_index (step_move ordering_board 0 0 1 2 (CHR ''N'')) = 0 \<and>
   origin_index (step_move ordering_board 0 0 2 1 (CHR ''N'')) = 0 \<and>
   origin_index (step_move ordering_board 1 0 2 0 (CHR ''P'')) = 8 \<and>
   origin_index (step_move ordering_board 1 0 3 0 (CHR ''P'')) = 8 \<and>
   (\<exists>front back. possible_moves ordering_board ''w'' = Some (front @ back) \<and>
      (\<forall>m \<in> set front. priority_capture m) \<and> (\<forall>m \<in> set back. \<not> priority_capture m) \<and>
      sorted_wrt (\<lambda>m1 m2. origin_index m2 \<le> origin_index m1) front \<and>
      sorted_wrt (\<lambda>m1 m2. origin_index m1 \<le> origin_index m2) back)"
  using capture_ordering[OF ordering_board_wf, of "''w''"] ordering_board_wf
    ordering_board_moves ordering_board_priorities ordering_board_origins
  by blast

section \<open>C7: what pawn_structure counts\<close>

text \<open>
  \<^verbatim>\<open>pawn_structure\<close> adds one point for a defender on the left and one more for a defender on
  the right. On a board with white pawns on \<open>(1, 0)\<close>, \<open>(1, 2)\<close> and \<open>(2, 1)\<close> the pawn on
  \<open>(2, 1)\<close> is the only defended one and has two defenders: the function yields 2, while the
  number of defended pawns is 1.
\<close>

theorem pawn_structure_defended_counterexample:
  "pawn_structure ''w'' chain_board root = Some 2 \<and>
   defended_pawns chain_board (CHR ''P'') (-1) = 1"
proof -
  have "pawn_structure ''w'' chain_board root = Some 2" by code_simp
  moreover have "defended_pawns chain_board (CHR ''P'') (-1) = 1" by code_simp
  ultimately show ?thesis by simp
qed

text \<open>
  Claim C7, amended. On an 8x8 board, \<^verbatim>\<open>pawn_structure\<close> yields 0 when the node's
  \<^verbatim>\<open>player_turn\<close> is false; otherwise it yields the number of pairs (pawn, defender) among the
  principal player's pawns (\<^verbatim>\<open>'P'\<close> and the rank \<open>r - 1\<close> when \<^verbatim>\<open>player_color\<close> is \<^verbatim>\<open>'w'\<close>,
  \<^verbatim>\<open>'p'\<close> and the rank \<open>r + 1\<close> otherwise), where a defender of a pawn is a pawn of the same
  letter diagonally adjacent one rank behind it: a pawn defended from both sides counts twice.
\<close>

theorem pawn_structure_pairs:
  assumes "wf_shape b"
  shows "pawn_structure pc b st =
         Some (if player_turn st
               then of_nat (defender_pairs b (if pc = ''w'' then CHR ''P'' else CHR ''p'')
                                             (if pc = ''w'' then -1 else 1))
               else 0)"
  unfolding pawn_structure_def using pawn_loops[OF assms] by simp

theorem pawn_structure_pairs_witness:
  "wf_shape chain_board \<and>
   pawn_structure ''w'' chain_board root = Some 2 \<and>
   pawn_structure ''w'' chain_board (State None (Fin 0) False []) = Some 0"
  using pawn_structure_pairs[OF chain_board_wf, of "''w''" root]
    pawn_structure_pairs[OF chain_board_wf, of "''w''" "State None (Fin 0) False []"]
    chain_board_wf chain_board_pairs
  by (simp add: root_def)

section \<open>C8: generated moves stay on the board\<close>

text \<open>
  Claim C8. On a board of eight rows of eight cells, for every colour, \<^verbatim>\<open>possible_moves\<close>
  returns a list of moves (no board access of the generation fails, so no cell outside rows
  and columns 0..7 is read or written), and every coordinate that a generated move touches,
  origin and destination alike, has its row and its column in \<open>[0, 8)\<close>.
\<close>

theorem possible_moves_in_bounds:
  assumes "wf_shape b"
  shows "\<exists>ms. possible_moves b color = Some ms \<and>
    (\<forall>m \<in> set ms. \<forall>((r, c), x) \<in> set (changes m) \<union> set (undo_changes m).
       in_range8 r \<and> in_range8 c)"
proof -
  obtain ms where ms: "possible_moves b color = Some ms"
    using possible_moves_total[OF assms] by blast
  have "in_range8 r \<and> in_range8 c"
    if "m \<in> set ms" "((r, c), x) \<in> set (changes m) \<union> set (undo_changes m)" for m r c x
  proof -
    have "move_ok b m" using possible_moves_ok[OF ms] that(1) by (simp add: all_ok_def)
    then show ?thesis using move_ok_keys_range[OF assms _ that(2)] by blast
  qed
  then show ?thesis using ms by blast
qed

theorem possible_moves_in_bounds_witness:
  "wf_shape pawn_board \<and>
   (\<exists>ms. possible_moves pawn_board ''w'' = Some ms \<and>
    (\<forall>m \<in> set ms. \<forall>((r, c), x) \<in> set (changes m) \<union> set (undo_changes m).
       in_range8 r \<and> in_range8 c))"
proof -
  have wf: "wf_shape pawn_board" by (simp add: wf_shape_def pawn_board_def)
  show ?thesis using wf possible_moves_in_bounds[OF wf, of "''w''"] by blast
qed

section \<open>C9: a node without moves\<close>

text \<open>
  Claim C9. When the node is not terminal, the depth is at least one and \<^verbatim>\<open>get_successors\<close>
  yields the empty list, \<^verbatim>\<open>alphabeta\<close> returns minus infinity for a node with \<^verbatim>\<open>player_turn\<close>
  true and plus infinity otherwise, and leaves that infinity in \<^verbatim>\<open>state.val\<close>: the loop over
  the successors has nothing to visit.
\<close>

theorem no_successors_infinite:
  assumes "is_game_over st = Some False" and "get_successors pc b st = Some (b', st1)"
    and "successors st1 = []"
  shows "alphabeta pc b st (Suc d) alpha beta =
         Some (if player_turn st then NegInf else PosInf, b,
               State (move st) (if player_turn st then NegInf else PosInf) (player_turn st) [])"
  using assms get_successors_empty[OF assms(2)] by simp

theorem no_successors_infinite_witness:
  "is_game_over root = Some False \<and>
   get_successors ''w'' empty_board root = Some (empty_board, root) \<and>
   successors root = [] \<and>
   alphabeta ''w'' empty_board root (Suc 1) NegInf PosInf =
     Some (NegInf, empty_board, State None NegInf True [])"
proof -
  have g: "is_game_over root = Some False" by (simp add: is_game_over_def root_def)
  have s: "successors root = []" by (simp add: root_def)
  show ?thesis
    using no_successors_infinite[OF g empty_board_root s, of 1 NegInf PosInf] g s empty_board_root
    by (simp add: root_def)
qed

end
